theory Spec2Isabelle
  imports Main "HOL-Library.Word" "HOL-Library.AList"
begin

unbundle bit_operations_syntax

section \<open>The subscription engine of the broker (src/subs.c)\<close>

text \<open>
  A shallow embedding of \<^verbatim>\<open>src/subs.c\<close>. The subscription tree is a nested datatype
  (a node owns its children, its normal leaves and its shared groups, as in the C code,
  where the only downward pointers are the children hash, \<^verbatim>\<open>subs\<close> and \<^verbatim>\<open>shared\<close>).
  Clients (\<^verbatim>\<open>struct mosquitto\<close>) live in a store indexed by their address, because a leaf
  reads \<^verbatim>\<open>leaf->context->id\<close> through its pointer at publish time. Every call the engine
  makes to a collaborator (the ACL check, the outgoing queue) is appended to a trace, so
  that what reached the sink, and in which order, is part of the result.
\<close>

subsection \<open>Return codes\<close>

text \<open>Modelled from the spec: the \<^verbatim>\<open>MOSQ_ERR_*\<close> and \<^verbatim>\<open>MQTT_RC_*\<close> constants are declared in
  \<^verbatim>\<open>mosquitto.h\<close> and \<^verbatim>\<open>mqtt_protocol.h\<close>, which are not among the sources. Sections 6 and 7
  of the spec name them (Ok, AlreadyExists, NoSubscribers, OutOfMemory, InvalidTopic,
  AclDenied, NoSubscriptionExisted); the numbers are those of the public headers. The
  code relies on \<^verbatim>\<open>MOSQ_ERR_SUB_EXISTS\<close> and \<^verbatim>\<open>MOSQ_ERR_NO_SUBSCRIBERS\<close> being negative
  (\<^verbatim>\<open>if(rc > 0)\<close> in \<^verbatim>\<open>sub__add_normal\<close>) and different from 0 and 1.
\<close>

definition MOSQ_ERR_NO_SUBSCRIBERS :: int where "MOSQ_ERR_NO_SUBSCRIBERS = -3"
definition MOSQ_ERR_SUB_EXISTS :: int where "MOSQ_ERR_SUB_EXISTS = -2"
definition MOSQ_ERR_SUCCESS :: int where "MOSQ_ERR_SUCCESS = 0"
definition MOSQ_ERR_NOMEM :: int where "MOSQ_ERR_NOMEM = 1"
definition MOSQ_ERR_INVAL :: int where "MOSQ_ERR_INVAL = 3"
definition MOSQ_ERR_ACL_DENIED :: int where "MOSQ_ERR_ACL_DENIED = 12"
definition UINT16_MAX :: nat where "UINT16_MAX = 65535"

subsection \<open>Data model\<close>

type_synonym ctx_ref = nat \<comment> \<open>the address of a \<^verbatim>\<open>struct mosquitto\<close>\<close>
type_synonym leaf_ref = nat \<comment> \<open>the address of a \<^verbatim>\<open>struct mosquitto__subleaf\<close>\<close>

text \<open>Modelled from the spec: \<^verbatim>\<open>enum mosquitto__protocol\<close> is declared in
  \<^verbatim>\<open>mosquitto_internal.h\<close>, not among the sources; \<^verbatim>\<open>subs.c\<close> names \<^verbatim>\<open>mosq_p_mqtt31\<close> and
  \<^verbatim>\<open>mosq_p_mqtt5\<close> and treats every other value alike.
\<close>

datatype mosquitto__protocol =
  mosq_p_invalid | mosq_p_mqtt31 | mosq_p_mqtt311 | mosq_p_mqtts | mosq_p_mqtt5

text \<open>
  \<^verbatim>\<open>struct mosquitto\<close>, the fields \<^verbatim>\<open>subs.c\<close> touches. \<^verbatim>\<open>id\<close> may be \<^verbatim>\<open>NULL\<close>. \<^verbatim>\<open>subs\<close> is the
  client's array of leaf pointers with holes (\<^verbatim>\<open>NULL\<close> slots); \<^verbatim>\<open>subs_capacity\<close> is the
  length of the list. \<^verbatim>\<open>last_mid\<close> is the state of the packet-identifier generator.
\<close>

record mosquitto =
  ctx_id :: "string option"
  ctx_protocol :: mosquitto__protocol
  ctx_last_mid :: "16 word"
  ctx_subs :: "leaf_ref option list"
  ctx_subs_count :: int

text \<open>
  \<^verbatim>\<open>struct mosquitto__subleaf\<close>. \<^verbatim>\<open>leaf_addr\<close> is the leaf's own address (what the client's
  \<^verbatim>\<open>subs\<close> array points to). The \<^verbatim>\<open>hier\<close> and \<^verbatim>\<open>shared\<close> back-pointers are the leaf's position
  in the tree. \<^verbatim>\<open>leaf_context\<close> is never \<^verbatim>\<open>NULL\<close>: the only assignment is in
  \<^verbatim>\<open>sub__add_leaf\<close>, reached from \<^verbatim>\<open>sub__add_context\<close> after its \<^verbatim>\<open>context && context->id\<close> test.
\<close>

record mosquitto__subleaf =
  leaf_addr :: leaf_ref
  leaf_context :: ctx_ref
  leaf_identifier :: "32 word"
  subscription_options :: "8 word"
  topic_filter :: string

text \<open>
  \<^verbatim>\<open>struct mosquitto__subhier\<close> with its \<^verbatim>\<open>struct mosquitto__subshared\<close> groups. The uthash
  tables \<^verbatim>\<open>children\<close> and \<^verbatim>\<open>shared\<close> are association lists in insertion order, which is
  the order \<^verbatim>\<open>HASH_ITER\<close> walks; the \<^verbatim>\<open>utlist\<close> doubly-linked lists are lists, head first.
\<close>

datatype mosquitto__subhier =
  Subhier (topic: string)
          (children: "(string \<times> mosquitto__subhier) list")
          (subs: "mosquitto__subleaf list")
          (shared: "(string \<times> mosquitto__subleaf list) list")

text \<open>\<^verbatim>\<open>struct mosquitto_subscription\<close>, the argument of \<^verbatim>\<open>sub__add\<close>.\<close>

record mosquitto_subscription =
  sub_topic_filter :: string
  sub_identifier :: "32 word"
  sub_options :: "8 word"

text \<open>
  The stored message (\<^verbatim>\<open>struct mosquitto__base_msg\<close>): the fields of \<^verbatim>\<open>stored->data\<close> that
  \<^verbatim>\<open>subs__send\<close> hands to the ACL check.
\<close>

record base_msg =
  msg_payload :: "8 word list"
  msg_qos :: "8 word"
  msg_retain :: bool

text \<open>
  Calls to the collaborators, in the order the engine makes them:
  \<^verbatim>\<open>mosquitto_acl_check(context, topic, ..., MOSQ_ACL_READ)\<close>,
  \<^verbatim>\<open>db__message_insert_outgoing(context, 0, mid, qos, retain, stored, identifier, true, true)\<close>,
  \<^verbatim>\<open>db__msg_store_ref_inc(stored)\<close>, \<^verbatim>\<open>db__msg_store_ref_dec(&stored)\<close> and
  \<^verbatim>\<open>retain__store(topic, stored, split_topics, true)\<close>.
\<close>

datatype call =
  AclCheck ctx_ref string base_msg
| InsertOutgoing ctx_ref "16 word" "8 word" bool base_msg "32 word"
| MsgStoreRefInc base_msg
| MsgStoreRefDec base_msg
| RetainStore string base_msg "string list"

text \<open>
  The collaborators and the configuration the engine consumes (section 6 of the spec):
  the results of the ACL check, of the outgoing queue and of the retained-message store
  as functions of their arguments, and \<^verbatim>\<open>db.config->upgrade_outgoing_qos\<close>.
\<close>

record env =
  mosquitto_acl_check :: "ctx_ref \<Rightarrow> string \<Rightarrow> base_msg \<Rightarrow> int"
  db__message_insert_outgoing ::
    "ctx_ref \<Rightarrow> 16 word \<Rightarrow> 8 word \<Rightarrow> bool \<Rightarrow> base_msg \<Rightarrow> 32 word \<Rightarrow> int"
  retain__store :: "string \<Rightarrow> base_msg \<Rightarrow> string list \<Rightarrow> int"
  upgrade_outgoing_qos :: bool

text \<open>
  The mutable state outside the tree: the client store, the trace of collaborator calls
  (oldest first), the next free leaf address, and the outcomes of the coming allocation
  attempts (\<^verbatim>\<open>False\<close>: \<^verbatim>\<open>mosquitto__calloc\<close> or \<^verbatim>\<open>mosquitto__realloc\<close> returns \<^verbatim>\<open>NULL\<close>; an
  exhausted list: the allocation succeeds).
\<close>

record world =
  contexts :: "ctx_ref \<Rightarrow> mosquitto"
  trace :: "call list"
  next_leaf :: leaf_ref
  allocs :: "bool list"

subsection \<open>Subscription options and the packet-identifier generator\<close>

text \<open>Modelled from the spec: the \<^verbatim>\<open>MQTT_SUB_OPT_GET_*\<close> macros are defined in
  \<^verbatim>\<open>mqtt_protocol.h\<close>, not among the sources. Section 3 of the spec describes the options
  as a bitfield holding the QoS (0/1/2), the no-local flag and the retain-as-published
  flag; the layout is that of the MQTT 5 subscription-options byte (QoS in bits 0-1,
  no-local in bit 2, retain-as-published in bit 3).
\<close>

definition MQTT_SUB_OPT_GET_QOS :: "8 word \<Rightarrow> 8 word" where
  "MQTT_SUB_OPT_GET_QOS opt = opt AND 0x03"

definition MQTT_SUB_OPT_GET_NO_LOCAL :: "8 word \<Rightarrow> 8 word" where
  "MQTT_SUB_OPT_GET_NO_LOCAL opt = opt AND 0x04"

definition MQTT_SUB_OPT_GET_RETAIN_AS_PUBLISHED :: "8 word \<Rightarrow> 8 word" where
  "MQTT_SUB_OPT_GET_RETAIN_AS_PUBLISHED opt = opt AND 0x08"

text \<open>Modelled from the spec: \<^verbatim>\<open>mosquitto__mid_generate\<close> is defined in \<^verbatim>\<open>util_mosq.c\<close>, not
  among the sources. Section 6: \<^verbatim>\<open>mid_generate(client) -> uint16 (non-zero)\<close>, a monotonic
  generator owned by the client: the client's counter is incremented, skipping 0, and
  the new value is returned.
\<close>

definition mosquitto__mid_generate :: "ctx_ref \<Rightarrow> world \<Rightarrow> 16 word \<times> world" where
  "mosquitto__mid_generate c w =
     (let m = ctx_last_mid (contexts w c) + 1;
          mid = (if m = 0 then m + 1 else m)
      in (mid, w\<lparr>contexts := (contexts w)(c := (contexts w c)\<lparr>ctx_last_mid := mid\<rparr>)\<rparr>))"

definition log_call :: "call \<Rightarrow> world \<Rightarrow> world" where
  "log_call e w = w\<lparr>trace := trace w @ [e]\<rparr>"

subsection \<open>Delivery to one leaf: \<^verbatim>\<open>subs__send\<close>\<close>

text \<open>
  \<^verbatim>\<open>subs__send\<close> (lines 63-103). \<^verbatim>\<open>retain\<close> is a C \<^verbatim>\<open>int\<close>; assigning it to the \<^verbatim>\<open>bool\<close>
  \<^verbatim>\<open>client_retain\<close> tests it against 0. The result is 1 only when the ACL check fails
  with something else than "denied" or when the queue returns exactly 1.
\<close>

definition subs__send ::
  "env \<Rightarrow> mosquitto__subleaf \<Rightarrow> string \<Rightarrow> 8 word \<Rightarrow> int \<Rightarrow> base_msg \<Rightarrow> world \<Rightarrow> int \<times> world"
where
  "subs__send E leaf topic_name qos retain stored w =
     (let rc2 = mosquitto_acl_check E (leaf_context leaf) topic_name stored;
          w1 = log_call (AclCheck (leaf_context leaf) topic_name stored) w
      in if rc2 = MOSQ_ERR_ACL_DENIED then (MOSQ_ERR_SUCCESS, w1)
         else if rc2 = MOSQ_ERR_SUCCESS then
           (let client_qos = MQTT_SUB_OPT_GET_QOS (subscription_options leaf);
                msg_qos = (if upgrade_outgoing_qos E then client_qos
                           else if qos > client_qos then client_qos else qos);
                (mid, w2) = (if msg_qos \<noteq> 0 then mosquitto__mid_generate (leaf_context leaf) w1
                             else (0, w1));
                client_retain =
                  (if MQTT_SUB_OPT_GET_RETAIN_AS_PUBLISHED (subscription_options leaf) \<noteq> 0
                   then retain \<noteq> 0 else False);
                w3 = log_call (InsertOutgoing (leaf_context leaf) mid msg_qos client_retain
                                 stored (leaf_identifier leaf)) w2
            in if db__message_insert_outgoing E (leaf_context leaf) mid msg_qos client_retain
                    stored (leaf_identifier leaf) = 1
               then (1, w3) else (0, w3))
         else (1, w1))"

subsection \<open>Shared groups and the leaves of a matched node\<close>

text \<open>
  \<^verbatim>\<open>subs__shared_process\<close> (lines 106-123): \<^verbatim>\<open>HASH_ITER\<close> over the groups of the node. For
  each group the head leaf is sent to, then unlinked (\<^verbatim>\<open>DL_DELETE\<close>) and appended
  (\<^verbatim>\<open>DL_APPEND\<close>). \<^verbatim>\<open>rc\<close> is the loop's accumulator. A group with no leaf does not occur in a
  tree built by this file (\<^verbatim>\<open>sub__add_shared\<close>, \<^verbatim>\<open>sub__remove_shared\<close> and
  \<^verbatim>\<open>sub__remove_shared_leaf\<close> delete a group the moment its list is empty); there the C code
  would read through a \<^verbatim>\<open>NULL\<close> leaf, and the model leaves the group alone. Every theorem
  below that runs this loop assumes \<open>groups_nonempty\<close>.
\<close>

fun subs__shared_process_loop ::
  "env \<Rightarrow> string \<Rightarrow> 8 word \<Rightarrow> int \<Rightarrow> base_msg \<Rightarrow> int \<Rightarrow>
   (string \<times> mosquitto__subleaf list) list \<Rightarrow> world \<Rightarrow>
   int \<times> (string \<times> mosquitto__subleaf list) list \<times> world"
where
  "subs__shared_process_loop E topic_name qos retain stored rc [] w = (rc, [], w)"
| "subs__shared_process_loop E topic_name qos retain stored rc ((name, []) # groups) w =
     (let (rc', groups', w') =
            subs__shared_process_loop E topic_name qos retain stored rc groups w
      in (rc', (name, []) # groups', w'))"
| "subs__shared_process_loop E topic_name qos retain stored rc ((name, leaf # rest) # groups) w =
     (let (rc2, w1) = subs__send E leaf topic_name qos retain stored w;
          (rc', groups', w') =
            subs__shared_process_loop E topic_name qos retain stored
              (if rc2 \<noteq> 0 then 1 else rc) groups w1
      in (rc', (name, rest @ [leaf]) # groups', w'))"

definition subs__shared_process ::
  "env \<Rightarrow> mosquitto__subhier \<Rightarrow> string \<Rightarrow> 8 word \<Rightarrow> int \<Rightarrow> base_msg \<Rightarrow> world \<Rightarrow>
   int \<times> mosquitto__subhier \<times> world"
where
  "subs__shared_process E hier topic_name qos retain stored w =
     (let (rc, groups', w') =
            subs__shared_process_loop E topic_name qos retain stored 0 (shared hier) w
      in (rc, Subhier (topic hier) (children hier) (subs hier) groups', w'))"

text \<open>
  The \<^verbatim>\<open>while(source_id && leaf)\<close> loop of \<^verbatim>\<open>subs__process\<close> (lines 133-144), entered with a
  source id that is not \<^verbatim>\<open>NULL\<close>. \<^verbatim>\<open>strcmp(...) == 0\<close> is equality of the two strings.
\<close>

fun subs__process_loop ::
  "env \<Rightarrow> string \<Rightarrow> string \<Rightarrow> 8 word \<Rightarrow> int \<Rightarrow> base_msg \<Rightarrow> int \<Rightarrow>
   mosquitto__subleaf list \<Rightarrow> world \<Rightarrow> int \<times> world"
where
  "subs__process_loop E source_id topic_name qos retain stored rc [] w = (rc, w)"
| "subs__process_loop E source_id topic_name qos retain stored rc (leaf # rest) w =
     (if ctx_id (contexts w (leaf_context leaf)) = None
         \<or> (MQTT_SUB_OPT_GET_NO_LOCAL (subscription_options leaf) \<noteq> 0
            \<and> ctx_id (contexts w (leaf_context leaf)) = Some source_id)
      then subs__process_loop E source_id topic_name qos retain stored rc rest w
      else (let (rc2, w1) = subs__send E leaf topic_name qos retain stored w
            in subs__process_loop E source_id topic_name qos retain stored
                 (if rc2 \<noteq> 0 then 1 else rc) rest w1))"

text \<open>
  \<^verbatim>\<open>subs__process\<close> (lines 125-150). The final test reads \<^verbatim>\<open>hier->subs\<close> and \<^verbatim>\<open>hier->shared\<close>:
  whether the node holds any leaf at all, not whether one was delivered to.
\<close>

definition subs__process ::
  "env \<Rightarrow> mosquitto__subhier \<Rightarrow> string option \<Rightarrow> string \<Rightarrow> 8 word \<Rightarrow> int \<Rightarrow> base_msg \<Rightarrow>
   world \<Rightarrow> int \<times> mosquitto__subhier \<times> world"
where
  "subs__process E hier source_id topic_name qos retain stored w =
     (let (rc, hier1, w1) = subs__shared_process E hier topic_name qos retain stored w;
          (rc', w2) =
            (case source_id of
               None \<Rightarrow> (rc, w1)
             | Some sid \<Rightarrow>
                 subs__process_loop E sid topic_name qos retain stored rc (subs hier1) w1)
      in if subs hier1 \<noteq> [] \<or> shared hier1 \<noteq> [] then (rc', hier1, w2)
         else (MOSQ_ERR_NO_SUBSCRIBERS, hier1, w2))"

subsection \<open>The matcher: \<^verbatim>\<open>sub__search\<close>\<close>

text \<open>
  \<^verbatim>\<open>HASH_FIND\<close> in a children table, and the write-back of a child that a call has changed
  (in C the child is changed in place through the pointer \<^verbatim>\<open>branch\<close>).
\<close>

definition find_child :: "mosquitto__subhier \<Rightarrow> string \<Rightarrow> mosquitto__subhier option" where
  "find_child hier key = map_of (children hier) key"

definition put_child :: "mosquitto__subhier \<Rightarrow> string \<Rightarrow> mosquitto__subhier \<Rightarrow> mosquitto__subhier" where
  "put_child hier key branch =
     Subhier (topic hier) (AList.update key branch (children hier)) (subs hier) (shared hier)"

text \<open>
  The body that \<^verbatim>\<open>sub__search\<close> runs for a branch it found, for the literal match
  (lines 470-485) and again for the \<^verbatim>\<open>+\<close> match (lines 490-505), given the result \<open>r\<close> of
  the recursive call on the branch. \<open>Inl\<close> is the early \<^verbatim>\<open>return rc\<close>; \<open>Inr\<close> carries
  \<^verbatim>\<open>have_subscribers\<close> on.
\<close>

definition search_branch ::
  "env \<Rightarrow> mosquitto__subhier \<Rightarrow> string \<Rightarrow> bool \<Rightarrow> string option \<Rightarrow> string \<Rightarrow> 8 word \<Rightarrow> int \<Rightarrow>
   base_msg \<Rightarrow> bool \<Rightarrow> int \<times> mosquitto__subhier \<times> world \<Rightarrow>
   (int \<times> mosquitto__subhier \<times> world) + (bool \<times> mosquitto__subhier \<times> world)"
where
  "search_branch E subhier key end_of_list source_id topic_name qos retain stored
     have_subscribers r =
     (case r of (rc, branch1, w1) \<Rightarrow>
        if rc \<noteq> MOSQ_ERR_SUCCESS \<and> rc \<noteq> MOSQ_ERR_NO_SUBSCRIBERS
        then Inl (rc, put_child subhier key branch1, w1)
        else
          (let hs1 = (have_subscribers \<or> rc = MOSQ_ERR_SUCCESS) in
           if end_of_list then
             (case subs__process E branch1 source_id topic_name qos retain stored w1 of
                (rc', branch2, w2) \<Rightarrow>
                  if rc' = MOSQ_ERR_SUCCESS
                  then Inr (True, put_child subhier key branch2, w2)
                  else if rc' \<noteq> MOSQ_ERR_NO_SUBSCRIBERS
                  then Inl (rc', put_child subhier key branch2, w2)
                  else Inr (hs1, put_child subhier key branch2, w2))
           else Inr (hs1, put_child subhier key branch1, w1)))"

text \<open>The \<^verbatim>\<open>#\<close> match and the final result of \<^verbatim>\<open>sub__search\<close> (lines 508-527).\<close>

definition search_hash ::
  "env \<Rightarrow> mosquitto__subhier \<Rightarrow> string option \<Rightarrow> string \<Rightarrow> 8 word \<Rightarrow> int \<Rightarrow> base_msg \<Rightarrow>
   bool \<Rightarrow> world \<Rightarrow> int \<times> mosquitto__subhier \<times> world"
where
  "search_hash E subhier source_id topic_name qos retain stored have_subscribers w =
     (case find_child subhier ''#'' of
        None \<Rightarrow>
          (if have_subscribers then MOSQ_ERR_SUCCESS else MOSQ_ERR_NO_SUBSCRIBERS, subhier, w)
      | Some branch \<Rightarrow>
          if children branch \<noteq> []
          then (if have_subscribers then MOSQ_ERR_SUCCESS else MOSQ_ERR_NO_SUBSCRIBERS, subhier, w)
          else
            (case subs__process E branch source_id topic_name qos retain stored w of
               (rc, branch1, w1) \<Rightarrow>
                 if rc = MOSQ_ERR_SUCCESS
                 then (MOSQ_ERR_SUCCESS, put_child subhier ''#'' branch1, w1)
                 else if rc \<noteq> MOSQ_ERR_NO_SUBSCRIBERS
                 then (rc, put_child subhier ''#'' branch1, w1)
                 else (if have_subscribers then MOSQ_ERR_SUCCESS else MOSQ_ERR_NO_SUBSCRIBERS,
                       put_child subhier ''#'' branch1, w1)))"

text \<open>
  \<^verbatim>\<open>sub__search\<close> (lines 459-528). \<^verbatim>\<open>split_topics\<close> is the \<^verbatim>\<open>NULL\<close>-terminated array of levels
  still to match; \<^verbatim>\<open>split_topics[1] == NULL\<close> is \<open>ts = []\<close>. The \<^verbatim>\<open>+\<close> lookup runs on the node
  as the literal branch left it.
\<close>

fun sub__search ::
  "env \<Rightarrow> mosquitto__subhier \<Rightarrow> string list \<Rightarrow> string option \<Rightarrow> string \<Rightarrow> 8 word \<Rightarrow> int \<Rightarrow>
   base_msg \<Rightarrow> world \<Rightarrow> int \<times> mosquitto__subhier \<times> world"
where
  "sub__search E subhier [] source_id topic_name qos retain stored w =
     search_hash E subhier source_id topic_name qos retain stored False w"
| "sub__search E subhier (t # ts) source_id topic_name qos retain stored w =
     (case (case find_child subhier t of
              None \<Rightarrow> Inr (False, subhier, w)
            | Some branch \<Rightarrow>
                search_branch E subhier t (ts = []) source_id topic_name qos retain stored False
                  (sub__search E branch ts source_id topic_name qos retain stored w)) of
        Inl r \<Rightarrow> r
      | Inr (hs1, subhier1, w1) \<Rightarrow>
          (case (case find_child subhier1 ''+'' of
                   None \<Rightarrow> Inr (hs1, subhier1, w1)
                 | Some branch \<Rightarrow>
                     search_branch E subhier1 ''+'' (ts = []) source_id topic_name qos retain
                       stored hs1
                       (sub__search E branch ts source_id topic_name qos retain stored w1)) of
             Inl r \<Rightarrow> r
           | Inr (hs2, subhier2, w2) \<Rightarrow>
               search_hash E subhier2 source_id topic_name qos retain stored hs2 w2))"

subsection \<open>The tokenizer\<close>

text \<open>Modelled from the spec: \<^verbatim>\<open>sub__topic_tokenise\<close> is defined in \<^verbatim>\<open>topic_tok.c\<close>, not among the
  sources. Section 4.1: the input is split on \<^verbatim>\<open>/\<close>, empty segments kept; an optional
  \<^verbatim>\<open>$share/<g>/\<close> prefix (\<^verbatim>\<open>g\<close> not empty, without \<^verbatim>\<open>+\<close> and \<^verbatim>\<open>#\<close>) is taken off and gives the
  share name; the call fails with \<^verbatim>\<open>MOSQ_ERR_INVAL\<close> on an empty input, on an input or a
  level longer than 65535 bytes, on a level that mixes \<^verbatim>\<open>+\<close> or \<^verbatim>\<open>#\<close> with other characters
  and on a \<^verbatim>\<open>#\<close> that is not the last level. The result is the list of levels (never
  empty) and the share name.
\<close>

fun split_levels :: "string \<Rightarrow> string list" where
  "split_levels [] = [[]]"
| "split_levels (c # cs) =
     (if c = CHR ''/'' then [] # split_levels cs
      else (case split_levels cs of
              [] \<Rightarrow> [[c]]
            | l # ls \<Rightarrow> (c # l) # ls))"

definition level_ok :: "string \<Rightarrow> bool" where
  "level_ok l =
     (length l \<le> UINT16_MAX
      \<and> (l = ''+'' \<or> l = ''#'' \<or> (CHR ''+'' \<notin> set l \<and> CHR ''#'' \<notin> set l)))"

definition levels_ok :: "string list \<Rightarrow> bool" where
  "levels_ok ls = (list_all level_ok ls \<and> ''#'' \<notin> set (butlast ls))"

definition sub__topic_tokenise :: "string \<Rightarrow> int + (string list \<times> string option)" where
  "sub__topic_tokenise s =
     (if s = [] \<or> length s > UINT16_MAX then Inl MOSQ_ERR_INVAL
      else (case split_levels s of
              [] \<Rightarrow> Inl MOSQ_ERR_INVAL
            | l # ls \<Rightarrow>
                if l = ''$share'' then
                  (case ls of
                     [] \<Rightarrow> Inl MOSQ_ERR_INVAL
                   | g # rest \<Rightarrow>
                       if g = [] \<or> CHR ''+'' \<in> set g \<or> CHR ''#'' \<in> set g
                          \<or> rest = [] \<or> rest = [[]] \<or> \<not> levels_ok rest
                       then Inl MOSQ_ERR_INVAL
                       else Inr (rest, Some g))
                else if levels_ok (l # ls) then Inr (l # ls, None)
                else Inl MOSQ_ERR_INVAL))"

subsection \<open>Allocation\<close>

text \<open>
  \<^verbatim>\<open>mosquitto__calloc\<close> and \<^verbatim>\<open>mosquitto__realloc\<close>: the next outcome of \<open>allocs\<close> tells whether
  the call returns memory.
\<close>

definition mosquitto__alloc :: "world \<Rightarrow> bool \<times> world" where
  "mosquitto__alloc w =
     (case allocs w of
        [] \<Rightarrow> (True, w)
      | ok # rest \<Rightarrow> (ok, w\<lparr>allocs := rest\<rparr>))"

subsection \<open>Subscribe\<close>

text \<open>The top-level hash \<^verbatim>\<open>db.subs\<close>: first level to node, in insertion order.\<close>

type_synonym subs_db = "(string \<times> mosquitto__subhier) list"

text \<open>
  \<^verbatim>\<open>sub__add_hier_entry\<close> (lines 531-549): a new node for the level, added to the hash
  \<^verbatim>\<open>*sibling\<close>; \<open>None\<close> when the allocation fails.
\<close>

definition sub__add_hier_entry ::
  "(string \<times> mosquitto__subhier) list \<Rightarrow> string \<Rightarrow> world \<Rightarrow>
   ((string \<times> mosquitto__subhier) list \<times> mosquitto__subhier) option \<times> world"
where
  "sub__add_hier_entry sibling level w =
     (case mosquitto__alloc w of
        (False, w1) \<Rightarrow> (None, w1)
      | (True, w1) \<Rightarrow>
          (Some (sibling @ [(level, Subhier level [] [] [])], Subhier level [] [] []), w1))"

text \<open>
  The scan of \<^verbatim>\<open>sub__add_leaf\<close> (lines 160-170): the first leaf whose client has an id
  equal to the caller's id gets the new identifier and options; \<open>None\<close> when no leaf
  matched. The caller's id is not \<^verbatim>\<open>NULL\<close> here (\<^verbatim>\<open>sub__add_context\<close> tested it).
\<close>

fun sub__add_leaf_scan ::
  "world \<Rightarrow> ctx_ref \<Rightarrow> mosquitto_subscription \<Rightarrow> mosquitto__subleaf list \<Rightarrow>
   mosquitto__subleaf list option"
where
  "sub__add_leaf_scan w c sub [] = None"
| "sub__add_leaf_scan w c sub (leaf # rest) =
     (if ctx_id (contexts w (leaf_context leaf)) \<noteq> None
         \<and> ctx_id (contexts w (leaf_context leaf)) = ctx_id (contexts w c)
      then Some (leaf\<lparr>leaf_identifier := sub_identifier sub,
                       subscription_options := sub_options sub\<rparr> # rest)
      else (case sub__add_leaf_scan w c sub rest of
              None \<Rightarrow> None
            | Some rest' \<Rightarrow> Some (leaf # rest')))"

text \<open>
  \<^verbatim>\<open>sub__add_leaf\<close> (lines 153-182): the result code, the list \<^verbatim>\<open>*head\<close>, and \<^verbatim>\<open>*newleaf\<close>.
\<close>

definition sub__add_leaf ::
  "ctx_ref \<Rightarrow> mosquitto_subscription \<Rightarrow> mosquitto__subleaf list \<Rightarrow> world \<Rightarrow>
   int \<times> mosquitto__subleaf list \<times> mosquitto__subleaf option \<times> world"
where
  "sub__add_leaf c sub head w =
     (case sub__add_leaf_scan w c sub head of
        Some head' \<Rightarrow> (MOSQ_ERR_SUB_EXISTS, head', None, w)
      | None \<Rightarrow>
          (case mosquitto__alloc w of
             (False, w1) \<Rightarrow> (MOSQ_ERR_NOMEM, head, None, w1)
           | (True, w1) \<Rightarrow>
               (let leaf = \<lparr>leaf_addr = next_leaf w1, leaf_context = c,
                             leaf_identifier = sub_identifier sub,
                             subscription_options = sub_options sub,
                             topic_filter = sub_topic_filter sub\<rparr>
                in (MOSQ_ERR_SUCCESS, head @ [leaf], Some leaf,
                    w1\<lparr>next_leaf := next_leaf w1 + 1\<rparr>))))"

text \<open>\<^verbatim>\<open>DL_DELETE(head, leaf)\<close>: the leaf with that address leaves the list.\<close>

definition DL_DELETE :: "mosquitto__subleaf list \<Rightarrow> mosquitto__subleaf \<Rightarrow> mosquitto__subleaf list" where
  "DL_DELETE head leaf = filter (\<lambda>l. leaf_addr l \<noteq> leaf_addr leaf) head"

text \<open>
  The client's index (lines 282-302, and 230-250 for a shared leaf): the new leaf goes
  into the first empty slot of \<^verbatim>\<open>context->subs\<close>; when there is none the array grows by
  one slot. \<open>False\<close> when \<^verbatim>\<open>mosquitto__realloc\<close> fails.
\<close>

fun first_empty_slot :: "leaf_ref option list \<Rightarrow> nat option" where
  "first_empty_slot [] = None"
| "first_empty_slot (None # slots) = Some 0"
| "first_empty_slot (Some r # slots) = map_option Suc (first_empty_slot slots)"

definition context_subs_assign :: "ctx_ref \<Rightarrow> leaf_ref \<Rightarrow> world \<Rightarrow> bool \<times> world" where
  "context_subs_assign c r w =
     (let m = contexts w c in
      case first_empty_slot (ctx_subs m) of
        Some i \<Rightarrow>
          (True, w\<lparr>contexts := (contexts w)
                     (c := m\<lparr>ctx_subs := (ctx_subs m)[i := Some r],
                              ctx_subs_count := ctx_subs_count m + 1\<rparr>)\<rparr>)
      | None \<Rightarrow>
          (case mosquitto__alloc w of
             (False, w1) \<Rightarrow> (False, w1)
           | (True, w1) \<Rightarrow>
               (True, w1\<lparr>contexts := (contexts w1)
                     (c := m\<lparr>ctx_subs := ctx_subs m @ [Some r],
                              ctx_subs_count := ctx_subs_count m + 1\<rparr>)\<rparr>)))"

text \<open>
  The result both \<^verbatim>\<open>sub__add_normal\<close> and \<^verbatim>\<open>sub__add_shared\<close> end with (lines 309-315 and
  256-262): \<^verbatim>\<open>rc\<close> for MQTT 3.1 and MQTT 5 clients, \<^verbatim>\<open>MOSQ_ERR_SUCCESS\<close> for the others.
\<close>

definition sub__add_result :: "mosquitto__protocol \<Rightarrow> int \<Rightarrow> int" where
  "sub__add_result p rc =
     (if p = mosq_p_mqtt31 \<or> p = mosq_p_mqtt5 then rc else MOSQ_ERR_SUCCESS)"

text \<open>
  \<^verbatim>\<open>sub__add_normal\<close> (lines 266-316), built without \<^verbatim>\<open>WITH_SYS_TREE\<close>. \<^verbatim>\<open>*newleaf\<close> is \<^verbatim>\<open>NULL\<close>
  only when \<^verbatim>\<open>rc\<close> is \<^verbatim>\<open>MOSQ_ERR_SUB_EXISTS\<close> or \<^verbatim>\<open>MOSQ_ERR_NOMEM\<close>.
\<close>

definition sub__add_normal ::
  "ctx_ref \<Rightarrow> mosquitto_subscription \<Rightarrow> mosquitto__subhier \<Rightarrow> world \<Rightarrow>
   int \<times> mosquitto__subhier \<times> world"
where
  "sub__add_normal c sub subhier w =
     (case sub__add_leaf c sub (subs subhier) w of
        (rc, subs', newleaf, w1) \<Rightarrow>
          if rc > 0 then (rc, subhier, w1)
          else
            (let hier' = Subhier (topic subhier) (children subhier) subs' (shared subhier) in
             case (if rc \<noteq> MOSQ_ERR_SUB_EXISTS then newleaf else None) of
               None \<Rightarrow> (sub__add_result (ctx_protocol (contexts w1 c)) rc, hier', w1)
             | Some leaf \<Rightarrow>
                 (case context_subs_assign c (leaf_addr leaf) w1 of
                    (False, w2) \<Rightarrow>
                      (MOSQ_ERR_NOMEM,
                       Subhier (topic subhier) (children subhier) (DL_DELETE subs' leaf)
                         (shared subhier),
                       w2)
                  | (True, w2) \<Rightarrow>
                      (sub__add_result (ctx_protocol (contexts w2 c)) rc, hier', w2))))"

text \<open>
  \<^verbatim>\<open>sub__remove_shared_leaf\<close> (lines 185-192) on the groups of a node: the leaf leaves the
  group, and an empty group leaves the hash.
\<close>

definition sub__remove_shared_leaf ::
  "(string \<times> mosquitto__subleaf list) list \<Rightarrow> string \<Rightarrow> mosquitto__subleaf \<Rightarrow>
   (string \<times> mosquitto__subleaf list) list"
where
  "sub__remove_shared_leaf groups name leaf =
     (case map_of groups name of
        None \<Rightarrow> groups
      | Some ls \<Rightarrow>
          if DL_DELETE ls leaf = [] then AList.delete name groups
          else AList.update name (DL_DELETE ls leaf) groups)"

text \<open>
  \<^verbatim>\<open>sub__add_shared\<close> (lines 195-263): the group is looked up and, when missing, allocated
  and added to the hash; a group left without a leaf is taken out again.
\<close>

definition sub__add_shared ::
  "ctx_ref \<Rightarrow> mosquitto_subscription \<Rightarrow> mosquitto__subhier \<Rightarrow> string \<Rightarrow> world \<Rightarrow>
   int \<times> mosquitto__subhier \<times> world"
where
  "sub__add_shared c sub subhier sharename w =
     (case (case map_of (shared subhier) sharename of
              Some ls \<Rightarrow> (True, shared subhier, ls, w)
            | None \<Rightarrow>
                (case mosquitto__alloc w of
                   (False, w0) \<Rightarrow> (False, shared subhier, [], w0)
                 | (True, w0) \<Rightarrow> (True, shared subhier @ [(sharename, [])], [], w0))) of
        (False, groups, ls, w0) \<Rightarrow> (MOSQ_ERR_NOMEM, subhier, w0)
      | (True, groups, ls, w0) \<Rightarrow>
          (case sub__add_leaf c sub ls w0 of
             (rc, ls', newleaf, w1) \<Rightarrow>
               if rc > 0 then
                 (rc,
                  Subhier (topic subhier) (children subhier) (subs subhier)
                    (if ls' = [] then AList.delete sharename groups else groups),
                  w1)
               else
                 (let groups' = AList.update sharename ls' groups;
                      hier' = Subhier (topic subhier) (children subhier) (subs subhier) groups' in
                  case (if rc \<noteq> MOSQ_ERR_SUB_EXISTS then newleaf else None) of
                    None \<Rightarrow> (sub__add_result (ctx_protocol (contexts w1 c)) rc, hier', w1)
                  | Some leaf \<Rightarrow>
                      (case context_subs_assign c (leaf_addr leaf) w1 of
                         (False, w2) \<Rightarrow>
                           (MOSQ_ERR_NOMEM,
                            Subhier (topic subhier) (children subhier) (subs subhier)
                              (sub__remove_shared_leaf groups' sharename leaf),
                            w2)
                       | (True, w2) \<Rightarrow>
                           (sub__add_result (ctx_protocol (contexts w2 c)) rc, hier', w2)))))"

text \<open>
  \<^verbatim>\<open>sub__add_context\<close> (lines 319-351): the walk along the levels, creating the nodes that
  are missing, then the insertion at the node reached. \<^verbatim>\<open>context\<close> may be \<^verbatim>\<open>NULL\<close>. A node
  created before a failure stays in the tree, as in the C code.
\<close>

fun sub__add_context ::
  "ctx_ref option \<Rightarrow> mosquitto_subscription \<Rightarrow> mosquitto__subhier \<Rightarrow> string list \<Rightarrow>
   string option \<Rightarrow> world \<Rightarrow> int \<times> mosquitto__subhier \<times> world"
where
  "sub__add_context context sub subhier [] sharename w =
     (case context of
        None \<Rightarrow> (MOSQ_ERR_SUCCESS, subhier, w)
      | Some c \<Rightarrow>
          if ctx_id (contexts w c) = None then (MOSQ_ERR_SUCCESS, subhier, w)
          else (case sharename of
                  Some name \<Rightarrow> sub__add_shared c sub subhier name w
                | None \<Rightarrow> sub__add_normal c sub subhier w))"
| "sub__add_context context sub subhier (level # levels) sharename w =
     (if length level > UINT16_MAX then (MOSQ_ERR_INVAL, subhier, w)
      else
        (case find_child subhier level of
           Some branch \<Rightarrow>
             (case sub__add_context context sub branch levels sharename w of
                (rc, branch', w') \<Rightarrow> (rc, put_child subhier level branch', w'))
         | None \<Rightarrow>
             (case sub__add_hier_entry (children subhier) level w of
                (None, w1) \<Rightarrow> (MOSQ_ERR_NOMEM, subhier, w1)
              | (Some (children', branch), w1) \<Rightarrow>
                  (case sub__add_context context sub branch levels sharename w1 of
                     (rc, branch', w') \<Rightarrow>
                       (rc,
                        put_child (Subhier (topic subhier) children' (subs subhier)
                                     (shared subhier)) level branch',
                        w')))))"

text \<open>
  \<^verbatim>\<open>sub__add\<close> (lines 552-590). The node of the first level is looked up in \<^verbatim>\<open>db.subs\<close> and
  \<^verbatim>\<open>sub__add_context\<close> then walks all the levels, the first one again, below it. The
  tokenizer never gives an empty array; the model answers \<^verbatim>\<open>MOSQ_ERR_INVAL\<close> there.
\<close>

definition sub__add ::
  "ctx_ref option \<Rightarrow> mosquitto_subscription \<Rightarrow> subs_db \<Rightarrow> world \<Rightarrow> int \<times> subs_db \<times> world"
where
  "sub__add context sub db w =
     (case sub__topic_tokenise (sub_topic_filter sub) of
        Inl rc \<Rightarrow> (rc, db, w)
      | Inr (topics, sharename) \<Rightarrow>
          (case topics of
             [] \<Rightarrow> (MOSQ_ERR_INVAL, db, w)
           | level # levels \<Rightarrow>
               if length level > UINT16_MAX then (MOSQ_ERR_INVAL, db, w)
               else
                 (case (case map_of db level of
                          Some subhier \<Rightarrow> (Some (db, subhier), w)
                        | None \<Rightarrow> sub__add_hier_entry db level w) of
                    (None, w1) \<Rightarrow> (MOSQ_ERR_NOMEM, db, w1)
                  | (Some (db1, subhier), w1) \<Rightarrow>
                      (case sub__add_context context sub subhier topics sharename w1 of
                         (rc, subhier', w') \<Rightarrow> (rc, AList.update level subhier' db1, w')))))"

subsection \<open>Unsubscribe\<close>







subsection \<open>Publish\<close>

text \<open>
  \<^verbatim>\<open>sub__messages_queue\<close> (lines 617-650). Only the node of the topic's first level is looked
  up in \<^verbatim>\<open>db.subs\<close>; \<^verbatim>\<open>rc\<close> starts as \<^verbatim>\<open>MOSQ_ERR_SUCCESS\<close> and stays so when there is no such
  node.
\<close>

definition sub__messages_queue ::
  "env \<Rightarrow> string option \<Rightarrow> string \<Rightarrow> 8 word \<Rightarrow> int \<Rightarrow> base_msg \<Rightarrow> subs_db \<Rightarrow> world \<Rightarrow>
   int \<times> subs_db \<times> world"
where
  "sub__messages_queue E source_id topic_name qos retain stored db w =
     (case sub__topic_tokenise topic_name of
        Inl rc \<Rightarrow> (1, db, w)
      | Inr (split_topics, sharename) \<Rightarrow>
          (let w0 = log_call (MsgStoreRefInc stored) w;
               (rc, db1, w1) =
                 (case split_topics of
                    [] \<Rightarrow> (MOSQ_ERR_SUCCESS, db, w0)
                  | level # levels \<Rightarrow>
                      (case map_of db level of
                         None \<Rightarrow> (MOSQ_ERR_SUCCESS, db, w0)
                       | Some subhier \<Rightarrow>
                           (case sub__search E subhier split_topics source_id topic_name qos
                                   retain stored w0 of
                              (rc, subhier', w') \<Rightarrow> (rc, AList.update level subhier' db, w'))));
               (rc', w2) =
                 (if retain \<noteq> 0 then
                    (let rc2 = retain__store E topic_name stored split_topics
                     in (if rc2 \<noteq> 0 then rc2 else rc,
                         log_call (RetainStore topic_name stored split_topics) w1))
                  else (rc, w1));
               w3 = log_call (MsgStoreRefDec stored) w2
           in (rc', db1, w3)))"

section \<open>Observations on a run\<close>

text \<open>
  What the theorems observe of a run: the calls a run appended to the trace, the clients
  the ACL check was asked about, and the clients a message was queued for.
\<close>

definition new_calls :: "world \<Rightarrow> world \<Rightarrow> call list" where
  "new_calls w w' = drop (length (trace w)) (trace w')"

fun acl_checked :: "call list \<Rightarrow> ctx_ref list" where
  "acl_checked [] = []"
| "acl_checked (AclCheck c t m # es) = c # acl_checked es"
| "acl_checked (e # es) = acl_checked es"

fun sink_targets :: "call list \<Rightarrow> ctx_ref list" where
  "sink_targets [] = []"
| "sink_targets (InsertOutgoing c mid q r m i # es) = c # sink_targets es"
| "sink_targets (e # es) = sink_targets es"

text \<open>
  \<open>extends w w'\<close>: the run from \<open>w\<close> to \<open>w'\<close> only appended to the trace and changed no
  client's id (a delivery changes nothing of a client but its \<^verbatim>\<open>last_mid\<close>).
\<close>

definition extends :: "world \<Rightarrow> world \<Rightarrow> bool" where
  "extends w w' = (take (length (trace w)) (trace w') = trace w
     \<and> (\<forall>c. ctx_id (contexts w' c) = ctx_id (contexts w c)))"

text \<open>
  The test at the head of the normal-subscriber loop (line 135), and the verdict of the
  ACL collaborator that lets \<^verbatim>\<open>subs__send\<close> go on to the queue.
\<close>

definition skipped :: "world \<Rightarrow> string \<Rightarrow> mosquitto__subleaf \<Rightarrow> bool" where
  "skipped w sid l =
     (ctx_id (contexts w (leaf_context l)) = None
      \<or> (MQTT_SUB_OPT_GET_NO_LOCAL (subscription_options l) \<noteq> 0
         \<and> ctx_id (contexts w (leaf_context l)) = Some sid))"

definition acl_allows :: "env \<Rightarrow> string \<Rightarrow> base_msg \<Rightarrow> mosquitto__subleaf \<Rightarrow> bool" where
  "acl_allows E tn stored l =
     (mosquitto_acl_check E (leaf_context l) tn stored = MOSQ_ERR_SUCCESS)"

text \<open>
  The rotation the spec asks of a shared group (section 4.6: the head moves to the tail),
  and invariant 4 of section 3 (no shared group is empty).
\<close>

definition rotate_group :: "string \<times> mosquitto__subleaf list \<Rightarrow> string \<times> mosquitto__subleaf list" where
  "rotate_group g = (case g of (name, ls) \<Rightarrow> (name, case ls of [] \<Rightarrow> [] | l # rest \<Rightarrow> rest @ [l]))"

definition groups_nonempty :: "(string \<times> mosquitto__subleaf list) list \<Rightarrow> bool" where
  "groups_nonempty groups = list_all (\<lambda>g. snd g \<noteq> []) groups"

section \<open>Concrete inputs\<close>

text \<open>
  Three clients: 1 (id \<^verbatim>\<open>c1\<close>, MQTT 5), 2 (id \<^verbatim>\<open>c2\<close>, MQTT 3.1.1) and every other address
  (no id). \<open>ex_env denied failing\<close> is a broker whose ACL denies the clients of \<open>denied\<close> and
  whose queue fails for the clients of \<open>failing\<close>.
\<close>

definition ex_contexts :: "ctx_ref \<Rightarrow> mosquitto" where
  "ex_contexts c =
     \<lparr>ctx_id = (if c = 1 then Some ''c1'' else if c = 2 then Some ''c2'' else None),
      ctx_protocol = (if c = 1 then mosq_p_mqtt5 else mosq_p_mqtt311),
      ctx_last_mid = 0, ctx_subs = [], ctx_subs_count = 0\<rparr>"

definition ex_world :: world where
  "ex_world = \<lparr>contexts = ex_contexts, trace = [], next_leaf = 100, allocs = []\<rparr>"

definition ex_msg :: base_msg where
  "ex_msg = \<lparr>msg_payload = [], msg_qos = 2, msg_retain = False\<rparr>"

definition ex_env :: "ctx_ref set \<Rightarrow> ctx_ref set \<Rightarrow> env" where
  "ex_env denied failing =
     \<lparr>mosquitto_acl_check = (\<lambda>c t m. if c \<in> denied then MOSQ_ERR_ACL_DENIED else MOSQ_ERR_SUCCESS),
      db__message_insert_outgoing = (\<lambda>c mid q r m i. if c \<in> failing then 1 else 0),
      retain__store = (\<lambda>t m ts. 0),
      upgrade_outgoing_qos = False\<rparr>"

definition ex_leaf :: "ctx_ref \<Rightarrow> 8 word \<Rightarrow> mosquitto__subleaf" where
  "ex_leaf c opts =
     \<lparr>leaf_addr = c, leaf_context = c, leaf_identifier = 0, subscription_options = opts,
      topic_filter = ''x''\<rparr>"

section \<open>The nodes a publish matches\<close>

text \<open>
  Section 4.5 of the spec, on the tree as it is before the run: the nodes whose leaves a
  publish of the levels \<open>ts\<close> is delivered from, starting at node \<open>h\<close>. Rule 1 (literal
  descent) and rule 2 (\<^verbatim>\<open>+\<close> descent) continue below a child and, when the levels end
  there, take the child itself (rule 4); rule 3 takes a \<^verbatim>\<open>#\<close> child that has no children.
  \<open>node_has_leaf\<close> is the test \<^verbatim>\<open>hier->subs || hier->shared\<close>.
\<close>

definition node_has_leaf :: "mosquitto__subhier \<Rightarrow> bool" where
  "node_has_leaf h = (subs h \<noteq> [] \<or> shared h \<noteq> [])"

definition hash_nodes :: "mosquitto__subhier \<Rightarrow> mosquitto__subhier list" where
  "hash_nodes h =
     (case find_child h ''#'' of
        None \<Rightarrow> []
      | Some b \<Rightarrow> if children b = [] then [b] else [])"

definition branch_nodes ::
  "(mosquitto__subhier \<Rightarrow> mosquitto__subhier list) \<Rightarrow> bool \<Rightarrow> mosquitto__subhier option \<Rightarrow>
   mosquitto__subhier list"
where
  "branch_nodes below end_of_list br =
     (case br of None \<Rightarrow> [] | Some b \<Rightarrow> below b @ (if end_of_list then [b] else []))"

fun matched_nodes :: "mosquitto__subhier \<Rightarrow> string list \<Rightarrow> mosquitto__subhier list" where
  "matched_nodes h [] = hash_nodes h"
| "matched_nodes h (t # ts) =
     branch_nodes (\<lambda>b. matched_nodes b ts) (ts = []) (find_child h t)
     @ branch_nodes (\<lambda>b. matched_nodes b ts) (ts = []) (find_child h ''+'')
     @ hash_nodes h"

text \<open>
  A delivery attempt that failed: the ACL check answered something else than "allowed" or
  "denied", or the queue answered 1. These are the two ways \<^verbatim>\<open>subs__send\<close> returns 1.
\<close>

fun failed_call :: "env \<Rightarrow> call \<Rightarrow> bool" where
  "failed_call E (AclCheck c t m) =
     (mosquitto_acl_check E c t m \<noteq> MOSQ_ERR_SUCCESS
      \<and> mosquitto_acl_check E c t m \<noteq> MOSQ_ERR_ACL_DENIED)"
| "failed_call E (InsertOutgoing c mid q r m i) =
     (db__message_insert_outgoing E c mid q r m i = 1)"
| "failed_call E e = False"

text \<open>
  What one processed node contributes to a run, by section 4.6 and the delivery decision
  of section 4.5: the clients the ACL check is asked about are the head of every shared
  group, in the order of the groups, and then, when the publish carries a source id, the
  normal leaves that are not skipped, in their order; the clients a message is queued for
  are those among them that the ACL allows.
\<close>

definition node_checks :: "world \<Rightarrow> string option \<Rightarrow> mosquitto__subhier \<Rightarrow> ctx_ref list" where
  "node_checks w source_id n =
     map (\<lambda>g. leaf_context (hd (snd g))) (shared n)
     @ (case source_id of
          None \<Rightarrow> []
        | Some sid \<Rightarrow> map leaf_context (filter (\<lambda>l. \<not> skipped w sid l) (subs n)))"

definition node_sinks ::
  "env \<Rightarrow> string \<Rightarrow> base_msg \<Rightarrow> world \<Rightarrow> string option \<Rightarrow> mosquitto__subhier \<Rightarrow> ctx_ref list"
where
  "node_sinks E tn stored w source_id n =
     map (\<lambda>g. leaf_context (hd (snd g)))
       (filter (\<lambda>g. acl_allows E tn stored (hd (snd g))) (shared n))
     @ (case source_id of
          None \<Rightarrow> []
        | Some sid \<Rightarrow>
            map leaf_context
              (filter (\<lambda>l. \<not> skipped w sid l \<and> acl_allows E tn stored l) (subs n)))"

text \<open>
  A run from world \<open>w\<close> to world \<open>w'\<close> that has processed the nodes \<open>ns\<close>, one after the
  other, and left them as \<open>ns'\<close>: the ACL checks and the queue calls of the run are those
  of the nodes, in order, every shared group of every node is rotated by one, and the
  normal leaves are as before.
\<close>

definition delivered ::
  "env \<Rightarrow> string \<Rightarrow> base_msg \<Rightarrow> string option \<Rightarrow> world \<Rightarrow> mosquitto__subhier list \<Rightarrow>
   mosquitto__subhier list \<Rightarrow> world \<Rightarrow> bool"
where
  "delivered E tn stored source_id w ns ns' w' =
     (extends w w'
      \<and> acl_checked (new_calls w w') = concat (map (node_checks w source_id) ns)
      \<and> sink_targets (new_calls w w') = concat (map (node_sinks E tn stored w source_id) ns)
      \<and> map shared ns' = map (\<lambda>n. map rotate_group (shared n)) ns
      \<and> map subs ns' = map subs ns)"

text \<open>
  The same of a run that has processed only the first \<open>k\<close> of the nodes \<open>ns\<close> (\<^verbatim>\<open>sub__search\<close>
  returns when the processing of a node reports an error, lines 475, 482, 495 and 502): the calls are those of the first \<open>k\<close> nodes, their groups are rotated, and the
  nodes after them are as before.
\<close>

definition processed ::
  "env \<Rightarrow> string \<Rightarrow> base_msg \<Rightarrow> string option \<Rightarrow> world \<Rightarrow> mosquitto__subhier list \<Rightarrow> nat \<Rightarrow>
   mosquitto__subhier list \<Rightarrow> world \<Rightarrow> bool"
where
  "processed E tn stored source_id w ns k ns' w' =
     (k \<le> length ns \<and> extends w w'
      \<and> acl_checked (new_calls w w') = concat (map (node_checks w source_id) (take k ns))
      \<and> sink_targets (new_calls w w')
          = concat (map (node_sinks E tn stored w source_id) (take k ns))
      \<and> map shared ns' = map (\<lambda>n. map rotate_group (shared n)) (take k ns) @ map shared (drop k ns)
      \<and> map subs ns' = map subs ns)"

text \<open>
  Invariant 4 of section 3 on a whole subtree: no shared group is empty.
\<close>

fun hier_groups_nonempty :: "mosquitto__subhier \<Rightarrow> bool" where
  "hier_groups_nonempty (Subhier t ch sb sh) =
     (groups_nonempty sh \<and> list_all (\<lambda>kc. hier_groups_nonempty (snd kc)) ch)"

text \<open>
  What a run of the matcher keeps of a tree: which keys lead where, and which nodes hold a
  leaf. (A run only rotates shared groups.)
\<close>

datatype shape = Shape bool "(string \<times> shape) list"

fun shape_of :: "mosquitto__subhier \<Rightarrow> shape" where
  "shape_of (Subhier t ch sb sh) =
     Shape (sb \<noteq> [] \<or> sh \<noteq> []) (map (\<lambda>kc. (fst kc, shape_of (snd kc))) ch)"

text \<open>
  The outcome of a run from world \<open>w\<close> on node \<open>h\<close>, where \<open>m\<close> says whether a matched node
  holds a leaf: the tree keeps its shape, the trace is extended, the result is 1 when an
  attempt failed and otherwise tells \<open>m\<close>, and an attempt can only fail where a leaf is.
  \<open>stage_ok\<close> is the same for the state of \<^verbatim>\<open>sub__search\<close> after one of its branches.
\<close>

definition ok_res :: "env \<Rightarrow> mosquitto__subhier \<Rightarrow> bool \<Rightarrow> world \<Rightarrow> int \<times> mosquitto__subhier \<times> world \<Rightarrow> bool" where
  "ok_res E h m w r =
     (shape_of (fst (snd r)) = shape_of h \<and> extends w (snd (snd r))
      \<and> fst r = (if list_ex (failed_call E) (new_calls w (snd (snd r))) then 1
                 else if m then MOSQ_ERR_SUCCESS else MOSQ_ERR_NO_SUBSCRIBERS)
      \<and> (list_ex (failed_call E) (new_calls w (snd (snd r))) \<longrightarrow> m))"

definition stage_ok ::
  "env \<Rightarrow> mosquitto__subhier \<Rightarrow> bool \<Rightarrow> world \<Rightarrow>
   (int \<times> mosquitto__subhier \<times> world) + (bool \<times> mosquitto__subhier \<times> world) \<Rightarrow> bool"
where
  "stage_ok E h m w s =
     (case s of
        Inl r \<Rightarrow> ok_res E h m w r \<and> fst r = 1
      | Inr (hs, h', w') \<Rightarrow>
          shape_of h' = shape_of h \<and> extends w w'
          \<and> \<not> list_ex (failed_call E) (new_calls w w') \<and> hs = m)"

text \<open>
  Trees for the concrete inputs: the first level \<^verbatim>\<open>x\<close> (stored twice, as \<^verbatim>\<open>sub__add\<close> does
  with the first level of a filter), with the given nodes below it.
\<close>

definition ex_tree :: "(string \<times> mosquitto__subhier) list \<Rightarrow> mosquitto__subhier" where
  "ex_tree ch = Subhier ''x'' [(''x'', Subhier ''x'' ch [] [])] [] []"

definition ex_node :: "string \<Rightarrow> mosquitto__subleaf list \<Rightarrow> string \<times> mosquitto__subhier" where
  "ex_node key leaves = (key, Subhier key [] leaves [])"

text \<open>
  Tries for the concrete inputs of the publish path, all under the first level \<^verbatim>\<open>x\<close>: a
  shared group of two members at \<^verbatim>\<open>x/a\<close>; a leaf at \<^verbatim>\<open>x/a\<close> beside a leaf and a shared group at
  \<^verbatim>\<open>x/+\<close>; and four normal leaves at \<^verbatim>\<open>x/a\<close>, two of them with the no-local option (4) and
  one of a client without an id.
\<close>

definition ex_shared_db :: "(string \<times> mosquitto__subhier) list" where
  "ex_shared_db =
     [(''x'', ex_tree [(''a'', Subhier ''a'' [] [] [(''g'', [ex_leaf 1 1, ex_leaf 2 1])])])]"

definition ex_fail_db :: "(string \<times> mosquitto__subhier) list" where
  "ex_fail_db =
     [(''x'', ex_tree [ex_node ''a'' [ex_leaf 1 0],
                       (''+'', Subhier ''+'' [] [ex_leaf 2 0] [(''g'', [ex_leaf 2 0, ex_leaf 1 0])])])]"

definition ex_local_db :: "(string \<times> mosquitto__subhier) list" where
  "ex_local_db =
     [(''x'', ex_tree [ex_node ''a'' [ex_leaf 1 4, ex_leaf 2 4, ex_leaf 3 0, ex_leaf 1 0]])]"

section \<open>Where a subscription lives\<close>

text \<open>
  The node a list of levels leads to below a node, and the node a tokenised filter leads
  to in \<^verbatim>\<open>db.subs\<close>: \<^verbatim>\<open>sub__add\<close> and \<^verbatim>\<open>sub__remove\<close> look the first level up in \<^verbatim>\<open>db.subs\<close> and
  then walk all the levels, the first one again, from there. \<open>target_leaves\<close> is the list a
  subscription with that share name is kept in: \<^verbatim>\<open>subs\<close>, or the list of the group.
\<close>

fun walk :: "mosquitto__subhier \<Rightarrow> string list \<Rightarrow> mosquitto__subhier option" where
  "walk h [] = Some h"
| "walk h (level # levels) =
     (case find_child h level of None \<Rightarrow> None | Some branch \<Rightarrow> walk branch levels)"

definition terminal_node :: "subs_db \<Rightarrow> string list \<Rightarrow> mosquitto__subhier option" where
  "terminal_node db topics =
     (case topics of
        [] \<Rightarrow> None
      | level # levels \<Rightarrow>
          (case map_of db level of None \<Rightarrow> None | Some h \<Rightarrow> walk h topics))"

definition target_leaves :: "mosquitto__subhier \<Rightarrow> string option \<Rightarrow> mosquitto__subleaf list" where
  "target_leaves h sharename =
     (case sharename of
        None \<Rightarrow> subs h
      | Some name \<Rightarrow> (case map_of (shared h) name of None \<Rightarrow> [] | Some ls \<Rightarrow> ls))"


definition owned_by :: "world \<Rightarrow> ctx_ref \<Rightarrow> mosquitto__subleaf \<Rightarrow> bool" where
  "owned_by w c l =
     (ctx_id (contexts w (leaf_context l)) \<noteq> None
      \<and> ctx_id (contexts w (leaf_context l)) = ctx_id (contexts w c))"

text \<open>
  The update the spec asks of a re-subscribe (section 4.3): the existing leaf gets the
  new options and subscription identifier, in place. \<open>set_target\<close> puts a list back where
  \<open>target_leaves\<close> took it from, \<open>replace_at\<close> puts a node back at the end of a path.
\<close>

fun update_first ::
  "world \<Rightarrow> ctx_ref \<Rightarrow> mosquitto_subscription \<Rightarrow> mosquitto__subleaf list \<Rightarrow> mosquitto__subleaf list"
where
  "update_first w c sub [] = []"
| "update_first w c sub (l # ls) =
     (if owned_by w c l
      then l\<lparr>leaf_identifier := sub_identifier sub, subscription_options := sub_options sub\<rparr> # ls
      else l # update_first w c sub ls)"

definition set_target ::
  "mosquitto__subhier \<Rightarrow> string option \<Rightarrow> mosquitto__subleaf list \<Rightarrow> mosquitto__subhier"
where
  "set_target h sharename ls =
     (case sharename of
        None \<Rightarrow> Subhier (topic h) (children h) ls (shared h)
      | Some name \<Rightarrow> Subhier (topic h) (children h) (subs h) (AList.update name ls (shared h)))"

fun replace_at :: "mosquitto__subhier \<Rightarrow> string list \<Rightarrow> mosquitto__subhier \<Rightarrow> mosquitto__subhier" where
  "replace_at h [] n = n"
| "replace_at h (level # levels) n =
     (case find_child h level of
        None \<Rightarrow> h
      | Some branch \<Rightarrow> put_child h level (replace_at branch levels n))"

text \<open>
  The list a tokenised filter names, below a node and in the whole trie (empty when the
  path is absent), and what an unsubscribe of client \<open>c\<close> makes of such a list and of the
  world: the first leaf whose \<^verbatim>\<open>context\<close> is \<open>c\<close> leaves the list (\<^verbatim>\<open>DL_DELETE\<close> unlinks by
  address) and its slot in the client's index is cleared.
\<close>

definition walk_leaves :: "mosquitto__subhier \<Rightarrow> string list \<Rightarrow> string option \<Rightarrow> mosquitto__subleaf list" where
  "walk_leaves h topics sharename =
     (case walk h topics of None \<Rightarrow> [] | Some n \<Rightarrow> target_leaves n sharename)"

definition leaves_at :: "subs_db \<Rightarrow> string list \<Rightarrow> string option \<Rightarrow> mosquitto__subleaf list" where
  "leaves_at db topics sharename =
     (case terminal_node db topics of None \<Rightarrow> [] | Some n \<Rightarrow> target_leaves n sharename)"



text \<open>All the leaves of a subtree and of the whole trie, normal and shared.\<close>

fun hier_leaves :: "mosquitto__subhier \<Rightarrow> mosquitto__subleaf list" where
  "hier_leaves (Subhier t ch sb sh) =
     sb @ concat (map snd sh) @ concat (map (\<lambda>kc. hier_leaves (snd kc)) ch)"

definition db_leaves :: "subs_db \<Rightarrow> mosquitto__subleaf list" where
  "db_leaves db = concat (map (\<lambda>kc. hier_leaves (snd kc)) db)"

text \<open>
  Concrete inputs: a trie holding the filter \<^verbatim>\<open>a\<close> with the given leaves, and a subscription
  request.
\<close>

definition ex_db :: "mosquitto__subleaf list \<Rightarrow> subs_db" where
  "ex_db leaves = [(''a'', Subhier ''a'' [(''a'', Subhier ''a'' [] leaves [])] [] [])]"

definition ex_sub :: "string \<Rightarrow> 8 word \<Rightarrow> mosquitto_subscription" where
  "ex_sub f opts = \<lparr>sub_topic_filter = f, sub_identifier = 7, sub_options = opts\<rparr>"



definition ex_uptime_db :: subs_db where
  "ex_uptime_db =
     [(''$SYS'', Subhier ''$SYS''
        [(''$SYS'', Subhier ''$SYS''
           [(''broker'', Subhier ''broker''
              [(''uptime'', Subhier ''uptime'' [] [ex_leaf 2 0] [])] [] [])] [] [])] [] [])]"

section \<open>Properties of the publish path\<close>

lemmas mosq_err_defs =
  MOSQ_ERR_NO_SUBSCRIBERS_def MOSQ_ERR_SUB_EXISTS_def MOSQ_ERR_SUCCESS_def
  MOSQ_ERR_NOMEM_def MOSQ_ERR_INVAL_def MOSQ_ERR_ACL_DENIED_def

lemmas ex_defs = ex_contexts_def ex_world_def ex_msg_def ex_env_def ex_leaf_def

lemmas tok_defs = sub__topic_tokenise_def levels_ok_def level_ok_def UINT16_MAX_def

lemma mid_generate_nonzero: "fst (mosquitto__mid_generate c w) \<noteq> 0"
  by (simp add: mosquitto__mid_generate_def Let_def)

lemma mid_generate_trace [simp]: "trace (snd (mosquitto__mid_generate c w)) = trace w"
  by (simp add: mosquitto__mid_generate_def Let_def)

lemma mid_generate_last_mid:
  "ctx_last_mid (contexts (snd (mosquitto__mid_generate c w)) c) = fst (mosquitto__mid_generate c w)"
  by (simp add: mosquitto__mid_generate_def Let_def)

lemma mid_generate_trace_upd [simp]:
  "fst (mosquitto__mid_generate c (w\<lparr>trace := t\<rparr>)) = fst (mosquitto__mid_generate c w)"
  by (simp add: mosquitto__mid_generate_def Let_def)

text \<open>
  C4: for every call of \<^verbatim>\<open>db__message_insert_outgoing\<close> that \<^verbatim>\<open>subs__send\<close> makes, the QoS is
  the subscriber's QoS when \<^verbatim>\<open>upgrade_outgoing_qos\<close> is set and the minimum of the publish
  QoS and the subscriber's QoS otherwise; the packet identifier is not 0 exactly when that
  QoS is greater than 0, and is then the identifier the client's generator has just
  produced; the retain flag is the publish retain flag when retain-as-published is set
  and false otherwise.
\<close>

theorem subs__send_sink_arguments:
  assumes run: "subs__send E leaf topic_name qos retain stored w = (rc, w')"
      and ev: "InsertOutgoing c mid q r st ident \<in> set (new_calls w w')"
  shows "c = leaf_context leaf \<and> ident = leaf_identifier leaf \<and> st = stored
       \<and> q = (if upgrade_outgoing_qos E then MQTT_SUB_OPT_GET_QOS (subscription_options leaf)
              else min qos (MQTT_SUB_OPT_GET_QOS (subscription_options leaf)))
       \<and> (mid \<noteq> 0 \<longleftrightarrow> 0 < q)
       \<and> (0 < q \<longrightarrow> mid = fst (mosquitto__mid_generate (leaf_context leaf) w)
                   \<and> ctx_last_mid (contexts w' (leaf_context leaf)) = mid)
       \<and> r = (if MQTT_SUB_OPT_GET_RETAIN_AS_PUBLISHED (subscription_options leaf) \<noteq> 0
              then retain \<noteq> 0 else False)"
proof -
  let ?c = "leaf_context leaf"
  let ?w1 = "log_call (AclCheck ?c topic_name stored) w"
  let ?cq = "MQTT_SUB_OPT_GET_QOS (subscription_options leaf)"
  let ?q = "if upgrade_outgoing_qos E then ?cq else if qos > ?cq then ?cq else qos"
  let ?g = "mosquitto__mid_generate ?c ?w1"
  let ?mid = "if ?q \<noteq> 0 then fst ?g else 0"
  let ?w2 = "if ?q \<noteq> 0 then snd ?g else ?w1"
  let ?r = "if MQTT_SUB_OPT_GET_RETAIN_AS_PUBLISHED (subscription_options leaf) \<noteq> 0
              then retain \<noteq> 0 else False"
  let ?ev = "InsertOutgoing ?c ?mid ?q ?r stored (leaf_identifier leaf)"
  have allowed: "mosquitto_acl_check E ?c topic_name stored = MOSQ_ERR_SUCCESS"
    using run ev
    by (auto simp: subs__send_def new_calls_def log_call_def Let_def mosq_err_defs
             split: if_splits)
  have w': "w' = log_call ?ev ?w2"
    using run allowed
    by (auto simp: subs__send_def Let_def mosq_err_defs split: if_splits prod.splits)
  have tr: "new_calls w w' = [AclCheck ?c topic_name stored, ?ev]"
    unfolding w' by (simp add: new_calls_def log_call_def)
  have the_ev: "InsertOutgoing c mid q r st ident = ?ev"
    using ev unfolding tr by simp
  have q: "?q = (if upgrade_outgoing_qos E then ?cq else min qos ?cq)"
    by (auto simp: min_def)
  have mid0: "?mid \<noteq> 0 \<longleftrightarrow> 0 < ?q"
    using mid_generate_nonzero [of ?c ?w1] by (simp add: word_greater_zero_iff)
  have fresh: "0 < ?q \<longrightarrow> ?mid = fst (mosquitto__mid_generate ?c w)
                 \<and> ctx_last_mid (contexts w' ?c) = ?mid"
    unfolding w'
    by (simp add: word_greater_zero_iff mid_generate_last_mid log_call_def)
  show ?thesis
    using the_ev q mid0 fresh by simp
qed

theorem subs__send_sink_arguments_witness:
  "InsertOutgoing 1 1 1 True ex_msg 0
     \<in> set (new_calls ex_world (snd (subs__send (ex_env {} {}) (ex_leaf 1 9) ''x'' 2 1 ex_msg ex_world)))
   \<and> (1 :: 8 word) = min 2 (MQTT_SUB_OPT_GET_QOS (subscription_options (ex_leaf 1 9)))
   \<and> (1 :: 16 word) = fst (mosquitto__mid_generate 1 ex_world)
   \<and> MQTT_SUB_OPT_GET_RETAIN_AS_PUBLISHED (subscription_options (ex_leaf 1 9)) \<noteq> 0"
proof -
  let ?r = "subs__send (ex_env {} {}) (ex_leaf 1 9) ''x'' 2 1 ex_msg ex_world"
  have run: "?r = (fst ?r, snd ?r)"
    by simp
  have ev: "InsertOutgoing 1 1 1 True ex_msg 0 \<in> set (new_calls ex_world (snd ?r))"
    by (simp add: subs__send_def new_calls_def log_call_def mosquitto__mid_generate_def
          MQTT_SUB_OPT_GET_QOS_def MQTT_SUB_OPT_GET_RETAIN_AS_PUBLISHED_def Let_def
          mosq_err_defs ex_defs)
  show ?thesis
    using ev subs__send_sink_arguments [OF run ev]
    by (simp add: ex_env_def ex_leaf_def MQTT_SUB_OPT_GET_RETAIN_AS_PUBLISHED_def split: if_splits)
qed

lemma acl_checked_append [simp]: "acl_checked (xs @ ys) = acl_checked xs @ acl_checked ys"
  by (induction xs rule: acl_checked.induct) simp_all

lemma sink_targets_append [simp]: "sink_targets (xs @ ys) = sink_targets xs @ sink_targets ys"
  by (induction xs rule: sink_targets.induct) simp_all

lemma extends_refl [simp]: "extends w w"
  by (simp add: extends_def)

lemma new_calls_refl [simp]: "new_calls w w = []"
  by (simp add: new_calls_def)

lemma extends_trace: "extends w w' \<Longrightarrow> trace w' = trace w @ new_calls w w'"
  unfolding extends_def new_calls_def by (metis append_take_drop_id)

lemma extendsI:
  "trace w' = trace w @ evs \<Longrightarrow> (\<And>c. ctx_id (contexts w' c) = ctx_id (contexts w c)) \<Longrightarrow>
   extends w w'"
  by (simp add: extends_def)

lemma new_callsI: "trace w' = trace w @ evs \<Longrightarrow> new_calls w w' = evs"
  by (simp add: new_calls_def)

lemma extends_trans:
  assumes "extends w w1" and "extends w1 w2"
  shows "extends w w2"
proof (rule extendsI)
  show "trace w2 = trace w @ (new_calls w w1 @ new_calls w1 w2)"
    using extends_trace [OF assms(1)] extends_trace [OF assms(2)] by simp
  show "ctx_id (contexts w2 c) = ctx_id (contexts w c)" for c
    using assms by (simp add: extends_def)
qed

lemma new_calls_trans:
  assumes "extends w w1" and "extends w1 w2"
  shows "new_calls w w2 = new_calls w w1 @ new_calls w1 w2"
proof -
  have "trace w2 = trace w @ (new_calls w w1 @ new_calls w1 w2)"
    using extends_trace [OF assms(1)] extends_trace [OF assms(2)] by simp
  then show ?thesis
    by (rule new_callsI)
qed

lemma subs__send_extends: "extends w (snd (subs__send E leaf tn qos retain stored w))"
  by (simp add: subs__send_def extends_def log_call_def Let_def mosquitto__mid_generate_def
        split: prod.splits)

lemma subs__send_acl_checked:
  "acl_checked (new_calls w (snd (subs__send E leaf tn qos retain stored w))) = [leaf_context leaf]"
  by (simp add: subs__send_def new_calls_def log_call_def Let_def mosquitto__mid_generate_def
        split: prod.splits)

lemma subs__send_sink_targets:
  "sink_targets (new_calls w (snd (subs__send E leaf tn qos retain stored w))) =
     (if mosquitto_acl_check E (leaf_context leaf) tn stored = MOSQ_ERR_SUCCESS
      then [leaf_context leaf] else [])"
  by (simp add: subs__send_def new_calls_def log_call_def Let_def mosquitto__mid_generate_def
        mosq_err_defs split: prod.splits)

lemma skipped_extends: "extends w w' \<Longrightarrow> skipped w' sid l = skipped w sid l"
  by (simp add: skipped_def extends_def)

lemma subs__process_loop_facts:
  "extends w (snd (subs__process_loop E sid tn qos retain stored rc leaves w))
   \<and> acl_checked (new_calls w (snd (subs__process_loop E sid tn qos retain stored rc leaves w)))
       = map leaf_context (filter (\<lambda>l. \<not> skipped w sid l) leaves)
   \<and> sink_targets (new_calls w (snd (subs__process_loop E sid tn qos retain stored rc leaves w)))
       = map leaf_context (filter (\<lambda>l. \<not> skipped w sid l \<and> acl_allows E tn stored l) leaves)"
proof (induction leaves arbitrary: rc w)
  case Nil
  show ?case by simp
next
  case (Cons leaf rest)
  show ?case
  proof (cases "skipped w sid leaf")
    case True
    then have eq: "subs__process_loop E sid tn qos retain stored rc (leaf # rest) w
                 = subs__process_loop E sid tn qos retain stored rc rest w"
      by (simp add: skipped_def)
    show ?thesis
      unfolding eq using Cons.IH [where rc = rc and w = w] True by simp
  next
    case False
    obtain rc2 w1 where send: "subs__send E leaf tn qos retain stored w = (rc2, w1)"
      by (cases "subs__send E leaf tn qos retain stored w")
    let ?rc = "if rc2 \<noteq> 0 then 1 else rc"
    let ?w' = "snd (subs__process_loop E sid tn qos retain stored ?rc rest w1)"
    have eq: "subs__process_loop E sid tn qos retain stored rc (leaf # rest) w
                 = subs__process_loop E sid tn qos retain stored ?rc rest w1"
      using False send by (auto simp: skipped_def)
    have e1: "extends w w1"
      using subs__send_extends [of w E leaf tn qos retain stored] send by simp
    have a1: "acl_checked (new_calls w w1) = [leaf_context leaf]"
      using subs__send_acl_checked [of w E leaf tn qos retain stored] send by simp
    have s1: "sink_targets (new_calls w w1) =
                (if acl_allows E tn stored leaf then [leaf_context leaf] else [])"
      using subs__send_sink_targets [of w E leaf tn qos retain stored] send
      by (simp add: acl_allows_def)
    note ih = Cons.IH [where rc = ?rc and w = w1]
    have e2: "extends w1 ?w'" using ih by simp
    have sk: "skipped w1 sid l = skipped w sid l" for l
      by (rule skipped_extends [OF e1])
    show ?thesis
      unfolding eq
      using extends_trans [OF e1 e2] new_calls_trans [OF e1 e2] a1 s1 ih False
      by (simp add: sk)
  qed
qed

lemma subs__shared_process_loop_Cons:
  "subs__send E leaf tn qos retain stored w = (rc2, w1) \<Longrightarrow>
   subs__shared_process_loop E tn qos retain stored rc ((name, leaf # rest) # groups) w =
     (case subs__shared_process_loop E tn qos retain stored (if rc2 \<noteq> 0 then 1 else rc) groups w1 of
        (rc', groups', w') \<Rightarrow> (rc', (name, rest @ [leaf]) # groups', w'))"
  by simp

lemma subs__shared_process_loop_rotates:
  "fst (snd (subs__shared_process_loop E tn qos retain stored rc groups w)) = map rotate_group groups"
proof (induction groups arbitrary: rc w)
  case Nil
  show ?case by simp
next
  case (Cons g groups)
  obtain name ls where g: "g = (name, ls)" by (cases g)
  show ?case
  proof (cases ls)
    case Nil
    then show ?thesis
      using Cons.IH [where rc = rc and w = w] g
      by (auto simp: rotate_group_def split: prod.splits)
  next
    case (Cons leaf rest)
    obtain rc2 w1 where send: "subs__send E leaf tn qos retain stored w = (rc2, w1)"
      by (cases "subs__send E leaf tn qos retain stored w")
    show ?thesis
      unfolding g Cons subs__shared_process_loop_Cons [OF send]
      using Cons.IH [where rc = "if rc2 \<noteq> 0 then 1 else rc" and w = w1]
      by (auto simp: rotate_group_def split: prod.splits)
  qed
qed

lemma subs__shared_process_loop_facts:
  "groups_nonempty groups \<Longrightarrow>
   extends w (snd (snd (subs__shared_process_loop E tn qos retain stored rc groups w)))
   \<and> acl_checked (new_calls w (snd (snd (subs__shared_process_loop E tn qos retain stored rc groups w))))
       = map (\<lambda>g. leaf_context (hd (snd g))) groups
   \<and> sink_targets (new_calls w (snd (snd (subs__shared_process_loop E tn qos retain stored rc groups w))))
       = map (\<lambda>g. leaf_context (hd (snd g))) (filter (\<lambda>g. acl_allows E tn stored (hd (snd g))) groups)"
proof (induction groups arbitrary: rc w)
  case Nil
  show ?case by simp
next
  case (Cons g groups)
  obtain name leaf rest where g: "g = (name, leaf # rest)"
    using Cons.prems by (cases g; cases "snd g") (auto simp: groups_nonempty_def)
  obtain rc2 w1 where send: "subs__send E leaf tn qos retain stored w = (rc2, w1)"
    by (cases "subs__send E leaf tn qos retain stored w")
  let ?rc = "if rc2 \<noteq> 0 then 1 else rc"
  let ?r = "subs__shared_process_loop E tn qos retain stored ?rc groups w1"
  have eq: "snd (snd (subs__shared_process_loop E tn qos retain stored rc (g # groups) w))
              = snd (snd ?r)"
    unfolding g subs__shared_process_loop_Cons [OF send] by (simp split: prod.splits)
  have ne: "groups_nonempty groups"
    using Cons.prems by (simp add: groups_nonempty_def)
  have e1: "extends w w1"
    using subs__send_extends [of w E leaf tn qos retain stored] send by simp
  have a1: "acl_checked (new_calls w w1) = [leaf_context leaf]"
    using subs__send_acl_checked [of w E leaf tn qos retain stored] send by simp
  have s1: "sink_targets (new_calls w w1) =
              (if acl_allows E tn stored leaf then [leaf_context leaf] else [])"
    using subs__send_sink_targets [of w E leaf tn qos retain stored] send
    by (simp add: acl_allows_def)
  note ih = Cons.IH [OF ne, where rc = ?rc and w = w1]
  have e2: "extends w1 (snd (snd ?r))" using ih by simp
  show ?case
    unfolding eq
    using extends_trans [OF e1 e2] new_calls_trans [OF e1 e2] a1 s1 ih
    by (simp add: g)
qed

text \<open>
  C10: with no source id \<^verbatim>\<open>subs__process\<close> leaves the tree and the world exactly as
  \<^verbatim>\<open>subs__shared_process\<close> left them (the loop over the normal leaves does not run); and
  the loop never asks the ACL about, nor queues for, a client whose id is \<^verbatim>\<open>NULL\<close>, whatever
  the leaf's options.
\<close>

theorem subs__process_null_ids:
  "snd (subs__process E hier None tn qos retain stored w)
     = snd (subs__shared_process E hier tn qos retain stored w)
   \<and> (ctx_id (contexts w c) = None \<longrightarrow>
        c \<notin> set (acl_checked (new_calls w
                (snd (subs__process_loop E sid tn qos retain stored rc leaves w))))
      \<and> c \<notin> set (sink_targets (new_calls w
                (snd (subs__process_loop E sid tn qos retain stored rc leaves w)))))"
proof -
  have a: "snd (subs__process E hier None tn qos retain stored w)
     = snd (subs__shared_process E hier tn qos retain stored w)"
    by (simp add: subs__process_def split: prod.splits)
  have b: "c \<notin> set (acl_checked (new_calls w
                (snd (subs__process_loop E sid tn qos retain stored rc leaves w))))
      \<and> c \<notin> set (sink_targets (new_calls w
                (snd (subs__process_loop E sid tn qos retain stored rc leaves w))))"
    if "ctx_id (contexts w c) = None"
    using that subs__process_loop_facts [of w E sid tn qos retain stored rc leaves]
    by (auto simp: skipped_def)
  show ?thesis
    using a b by blast
qed

theorem subs__process_null_ids_witness:
  "ctx_id (contexts ex_world 3) = None
   \<and> MQTT_SUB_OPT_GET_NO_LOCAL (subscription_options (ex_leaf 3 0)) = 0
   \<and> snd (snd (subs__process (ex_env {} {}) (Subhier ''x'' [] [ex_leaf 1 0] []) None ''x'' 0 0
             ex_msg ex_world)) = ex_world
   \<and> 3 \<notin> set (acl_checked (new_calls ex_world
          (snd (subs__process_loop (ex_env {} {}) ''c1'' ''x'' 0 0 ex_msg 0
                 [ex_leaf 3 0, ex_leaf 2 0] ex_world))))"
proof -
  have null: "ctx_id (contexts ex_world 3) = None"
    by (simp add: ex_defs)
  have sh: "snd (subs__shared_process (ex_env {} {}) (Subhier ''x'' [] [ex_leaf 1 0] []) ''x'' 0 0
             ex_msg ex_world) = (Subhier ''x'' [] [ex_leaf 1 0] [], ex_world)"
    by (simp add: subs__shared_process_def)
  show ?thesis
    using null sh
      subs__process_null_ids [of "ex_env {} {}" "Subhier ''x'' [] [ex_leaf 1 0] []" "''x''" 0 0
        ex_msg ex_world 3 "''c1''" 0 "[ex_leaf 3 0, ex_leaf 2 0]"]
    by (simp add: MQTT_SUB_OPT_GET_NO_LOCAL_def ex_leaf_def)
qed


section \<open>Properties of the matcher\<close>

lemma shape_alt:
  "shape_of h = Shape (node_has_leaf h) (map (\<lambda>kc. (fst kc, shape_of (snd kc))) (children h))"
  by (cases h) (simp add: node_has_leaf_def)

lemma shape_eqD:
  assumes "shape_of h = shape_of h'"
  shows "node_has_leaf h = node_has_leaf h'"
    and "map (\<lambda>kc. (fst kc, shape_of (snd kc))) (children h)
         = map (\<lambda>kc. (fst kc, shape_of (snd kc))) (children h')"
proof -
  have "Shape (node_has_leaf h) (map (\<lambda>kc. (fst kc, shape_of (snd kc))) (children h))
      = Shape (node_has_leaf h') (map (\<lambda>kc. (fst kc, shape_of (snd kc))) (children h'))"
    using assms by (simp only: shape_alt [symmetric])
  then show "node_has_leaf h = node_has_leaf h'"
    and "map (\<lambda>kc. (fst kc, shape_of (snd kc))) (children h)
         = map (\<lambda>kc. (fst kc, shape_of (snd kc))) (children h')"
    by (simp_all only: shape.inject)
qed

lemma shape_children_empty:
  assumes "shape_of h = shape_of h'"
  shows "(children h = []) = (children h' = [])"
proof -
  have "length (map (\<lambda>kc. (fst kc, shape_of (snd kc))) (children h))
      = length (map (\<lambda>kc. (fst kc, shape_of (snd kc))) (children h'))"
    by (simp only: shape_eqD(2) [OF assms])
  then have "length (children h) = length (children h')"
    by (simp only: length_map)
  then show ?thesis
    by (metis length_0_conv)
qed

lemma map_of_map_snd:
  "map_of (map (\<lambda>kc. (fst kc, f (snd kc))) ch) k = map_option f (map_of ch k)"
  by (induction ch) auto

lemma map_of_shape:
  assumes "map (\<lambda>kc. (fst kc, shape_of (snd kc))) ch = map (\<lambda>kc. (fst kc, shape_of (snd kc))) ch'"
  shows "map_option shape_of (map_of ch k) = map_option shape_of (map_of ch' k)"
proof -
  have "map_option shape_of (map_of ch k) = map_of (map (\<lambda>kc. (fst kc, shape_of (snd kc))) ch) k"
    by (simp only: map_of_map_snd)
  also have "\<dots> = map_of (map (\<lambda>kc. (fst kc, shape_of (snd kc))) ch') k"
    by (simp only: assms)
  also have "\<dots> = map_option shape_of (map_of ch' k)"
    by (simp only: map_of_map_snd)
  finally show ?thesis .
qed

lemma shape_find_child:
  assumes "shape_of h = shape_of h'"
  shows "map_option shape_of (find_child h k) = map_option shape_of (find_child h' k)"
  unfolding find_child_def by (rule map_of_shape) (rule shape_eqD(2) [OF assms])

lemma map_update_shape:
  assumes "shape_of b' = shape_of b"
  shows "map_of ch k = Some b \<Longrightarrow>
   map (\<lambda>kc. (fst kc, shape_of (snd kc))) (AList.update k b' ch) = map (\<lambda>kc. (fst kc, shape_of (snd kc))) ch"
proof (induction ch)
  case Nil
  then show ?case by simp
next
  case (Cons p ch)
  obtain k' v where p: "p = (k', v)" by (cases p)
  show ?case
  proof (cases "k' = k")
    case True
    then have "v = b" using Cons.prems p by simp
    then show ?thesis using True p assms by simp
  next
    case False
    then have "map_of ch k = Some b" using Cons.prems p by simp
    then show ?thesis using Cons.IH False p by simp
  qed
qed

lemma shape_put_child:
  assumes "find_child h k = Some b" and "shape_of b' = shape_of b"
  shows "shape_of (put_child h k b') = shape_of h"
proof -
  have "map_of (children h) k = Some b"
    using assms(1) by (simp only: find_child_def)
  then show ?thesis
    by (cases h) (simp add: put_child_def map_update_shape [OF assms(2)])
qed

lemma find_child_put_child:
  "find_child (put_child h k b) k' = (if k' = k then Some b else find_child h k')"
  by (simp add: put_child_def find_child_def update_conv')

lemma subs__send_rc:
  "fst (subs__send E leaf tn qos retain stored w)
     = (if list_ex (failed_call E) (new_calls w (snd (subs__send E leaf tn qos retain stored w)))
        then 1 else 0)"
  by (simp add: subs__send_def new_calls_def log_call_def Let_def mosquitto__mid_generate_def
        mosq_err_defs split: prod.splits)

lemma subs__process_loop_rc_failed:
  "rc = 0 \<or> rc = 1 \<Longrightarrow>
   fst (subs__process_loop E sid tn qos retain stored rc leaves w)
     = (if rc = 1 \<or> list_ex (failed_call E)
            (new_calls w (snd (subs__process_loop E sid tn qos retain stored rc leaves w)))
        then 1 else 0)"
proof (induction leaves arbitrary: rc w)
  case Nil
  then show ?case by auto
next
  case (Cons leaf rest)
  show ?case
  proof (cases "skipped w sid leaf")
    case True
    then have eq: "subs__process_loop E sid tn qos retain stored rc (leaf # rest) w
                 = subs__process_loop E sid tn qos retain stored rc rest w"
      by (simp add: skipped_def)
    show ?thesis
      unfolding eq by (rule Cons.IH [OF Cons.prems])
  next
    case False
    obtain rc2 w1 where send: "subs__send E leaf tn qos retain stored w = (rc2, w1)"
      by (cases "subs__send E leaf tn qos retain stored w")
    let ?rc = "if rc2 \<noteq> 0 then 1 else rc"
    let ?w' = "snd (subs__process_loop E sid tn qos retain stored ?rc rest w1)"
    have eq: "subs__process_loop E sid tn qos retain stored rc (leaf # rest) w
                 = subs__process_loop E sid tn qos retain stored ?rc rest w1"
      using False send by (auto simp: skipped_def)
    have e1: "extends w w1"
      using subs__send_extends [of w E leaf tn qos retain stored] send by simp
    have e2: "extends w1 ?w'"
      using subs__process_loop_facts [of w1 E sid tn qos retain stored ?rc rest] by simp
    have rc2: "rc2 = (if list_ex (failed_call E) (new_calls w w1) then 1 else 0)"
      using subs__send_rc [of E leaf tn qos retain stored w] send by simp
    have rc': "?rc = 0 \<or> ?rc = 1"
      using Cons.prems by auto
    show ?thesis
      unfolding eq Cons.IH [OF rc'] new_calls_trans [OF e1 e2]
      using rc2 Cons.prems by auto
  qed
qed

lemma subs__shared_process_loop_extends:
  "extends w (snd (snd (subs__shared_process_loop E tn qos retain stored rc groups w)))"
proof (induction groups arbitrary: rc w)
  case Nil
  show ?case by simp
next
  case (Cons g groups)
  obtain name ls where g: "g = (name, ls)" by (cases g)
  show ?case
  proof (cases ls)
    case Nil
    then show ?thesis
      using Cons.IH [where rc = rc and w = w] g by (auto split: prod.splits)
  next
    case (Cons leaf rest)
    obtain rc2 w1 where send: "subs__send E leaf tn qos retain stored w = (rc2, w1)"
      by (cases "subs__send E leaf tn qos retain stored w")
    have e1: "extends w w1"
      using subs__send_extends [of w E leaf tn qos retain stored] send by simp
    show ?thesis
      unfolding g Cons subs__shared_process_loop_Cons [OF send]
      using extends_trans [OF e1 Cons.IH [where rc = "if rc2 \<noteq> 0 then 1 else rc" and w = w1]]
      by (auto split: prod.splits)
  qed
qed

lemma subs__shared_process_loop_rc_failed:
  "rc = 0 \<or> rc = 1 \<Longrightarrow>
   fst (subs__shared_process_loop E tn qos retain stored rc groups w)
     = (if rc = 1 \<or> list_ex (failed_call E)
            (new_calls w (snd (snd (subs__shared_process_loop E tn qos retain stored rc groups w))))
        then 1 else 0)"
proof (induction groups arbitrary: rc w)
  case Nil
  then show ?case by auto
next
  case (Cons g groups)
  obtain name ls where g: "g = (name, ls)" by (cases g)
  show ?case
  proof (cases ls)
    case Nil
    have eq: "fst (subs__shared_process_loop E tn qos retain stored rc (g # groups) w)
                = fst (subs__shared_process_loop E tn qos retain stored rc groups w)"
         "snd (snd (subs__shared_process_loop E tn qos retain stored rc (g # groups) w))
                = snd (snd (subs__shared_process_loop E tn qos retain stored rc groups w))"
      unfolding g Nil by (auto split: prod.splits)
    show ?thesis
      unfolding eq by (rule Cons.IH [OF Cons.prems])
  next
    case (Cons leaf rest)
    obtain rc2 w1 where send: "subs__send E leaf tn qos retain stored w = (rc2, w1)"
      by (cases "subs__send E leaf tn qos retain stored w")
    let ?rc = "if rc2 \<noteq> 0 then 1 else rc"
    let ?r = "subs__shared_process_loop E tn qos retain stored ?rc groups w1"
    have eq: "fst (subs__shared_process_loop E tn qos retain stored rc (g # groups) w) = fst ?r"
         "snd (snd (subs__shared_process_loop E tn qos retain stored rc (g # groups) w)) = snd (snd ?r)"
      unfolding g Cons subs__shared_process_loop_Cons [OF send] by (auto split: prod.splits)
    have e1: "extends w w1"
      using subs__send_extends [of w E leaf tn qos retain stored] send by simp
    have e2: "extends w1 (snd (snd ?r))"
      by (rule subs__shared_process_loop_extends)
    have rc2: "rc2 = (if list_ex (failed_call E) (new_calls w w1) then 1 else 0)"
      using subs__send_rc [of E leaf tn qos retain stored w] send by simp
    have rc': "?rc = 0 \<or> ?rc = 1"
      using \<open>rc = 0 \<or> rc = 1\<close> by auto
    show ?thesis
      unfolding eq Cons.IH [OF rc'] new_calls_trans [OF e1 e2]
      using rc2 \<open>rc = 0 \<or> rc = 1\<close> by auto
  qed
qed

lemma subs__process_ok:
  "ok_res E h (node_has_leaf h) w (subs__process E h source_id tn qos retain stored w)"
proof -
  let ?s = "subs__shared_process_loop E tn qos retain stored 0 (shared h) w"
  let ?h1 = "Subhier (topic h) (children h) (subs h) (fst (snd ?s))"
  let ?w1 = "snd (snd ?s)"
  let ?rc1 = "fst ?s"
  let ?l = "\<lambda>sid. subs__process_loop E sid tn qos retain stored ?rc1 (subs h) ?w1"
  let ?w2 = "case source_id of None \<Rightarrow> ?w1 | Some sid \<Rightarrow> snd (?l sid)"
  let ?rc2 = "case source_id of None \<Rightarrow> ?rc1 | Some sid \<Rightarrow> fst (?l sid)"
  have res: "subs__process E h source_id tn qos retain stored w =
     (if subs h \<noteq> [] \<or> fst (snd ?s) \<noteq> [] then ?rc2 else MOSQ_ERR_NO_SUBSCRIBERS, ?h1, ?w2)"
    by (cases source_id) (auto simp: subs__process_def subs__shared_process_def split: prod.splits)
  have rot: "fst (snd ?s) = map rotate_group (shared h)"
    by (rule subs__shared_process_loop_rotates)
  have sh: "shape_of ?h1 = shape_of h"
    unfolding rot by (cases h) simp
  have e1: "extends w ?w1"
    by (rule subs__shared_process_loop_extends)
  have rc1: "?rc1 = (if list_ex (failed_call E) (new_calls w ?w1) then 1 else 0)"
    using subs__shared_process_loop_rc_failed [of 0 E tn qos retain stored "shared h" w] by simp
  have e2: "extends ?w1 ?w2"
    using subs__process_loop_facts [of ?w1 E _ tn qos retain stored ?rc1 "subs h"]
    by (cases source_id) simp_all
  have rc2: "?rc2 = (if list_ex (failed_call E) (new_calls w ?w2) then 1 else 0)"
  proof (cases source_id)
    case None
    then show ?thesis using rc1 by simp
  next
    case (Some sid)
    have r: "?rc1 = 0 \<or> ?rc1 = 1" using rc1 by auto
    show ?thesis
      using subs__process_loop_rc_failed [OF r, of E sid tn qos retain stored "subs h" ?w1]
        rc1 new_calls_trans [OF e1 e2] Some
      by auto
  qed
  have empty: "new_calls w ?w2 = []" if "\<not> node_has_leaf h"
  proof -
    have "shared h = []" and "subs h = []"
      using that by (simp_all add: node_has_leaf_def)
    then show ?thesis
      by (cases source_id) simp_all
  qed
  have leaf: "(subs h \<noteq> [] \<or> fst (snd ?s) \<noteq> []) = node_has_leaf h"
    unfolding rot by (simp add: node_has_leaf_def)
  show ?thesis
    unfolding res ok_res_def leaf
    using sh extends_trans [OF e1 e2] rc2 empty
    by (auto simp: mosq_err_defs)
qed

lemma shape_find_child_None:
  "shape_of h1 = shape_of h \<Longrightarrow> find_child h1 k = None \<Longrightarrow> find_child h k = None"
  using shape_find_child [of h1 h k] by simp

lemma shape_find_child_Some:
  assumes "shape_of h1 = shape_of h" and "find_child h1 k = Some b1"
  obtains b where "find_child h k = Some b" and "shape_of b1 = shape_of b"
  using shape_find_child [OF assms(1), of k] assms(2) by (cases "find_child h k") auto

lemma ok_res_prefix:
  assumes e: "extends w w0" and nf: "\<not> list_ex (failed_call E) (new_calls w w0)"
      and sh: "shape_of h0 = shape_of h" and ok: "ok_res E h0 m w0 r"
  shows "ok_res E h m w r"
proof -
  have e2: "extends w0 (snd (snd r))"
    using ok by (simp add: ok_res_def)
  show ?thesis
    using ok nf sh extends_trans [OF e e2]
    unfolding ok_res_def new_calls_trans [OF e e2] by simp
qed

lemma search_hash_ok:
  assumes sh: "shape_of h1 = shape_of h" and e: "extends w w1"
      and nf: "\<not> list_ex (failed_call E) (new_calls w w1)"
  shows "ok_res E h (hs \<or> list_ex node_has_leaf (hash_nodes h)) w
           (search_hash E h1 source_id tn qos retain stored hs w1)"
proof (rule ok_res_prefix [OF e nf sh])
  let ?m = "hs \<or> list_ex node_has_leaf (hash_nodes h)"
  show "ok_res E h1 ?m w1 (search_hash E h1 source_id tn qos retain stored hs w1)"
  proof (cases "find_child h1 ''#''")
    case None
    have "find_child h ''#'' = None"
      by (rule shape_find_child_None [OF sh None])
    then have "hash_nodes h = []"
      by (simp add: hash_nodes_def)
    then show ?thesis
      using None by (simp add: search_hash_def ok_res_def)
  next
    case (Some b1)
    obtain b where b: "find_child h ''#'' = Some b" and shb: "shape_of b1 = shape_of b"
      by (rule shape_find_child_Some [OF sh Some])
    have ce: "(children b1 = []) = (children b = [])"
      by (rule shape_children_empty [OF shb])
    show ?thesis
    proof (cases "children b1 = []")
      case False
      then have "hash_nodes h = []"
        using b ce by (simp add: hash_nodes_def)
      then show ?thesis
        using Some False by (simp add: search_hash_def ok_res_def)
    next
      case True
      let ?r = "subs__process E b1 source_id tn qos retain stored w1"
      have hn: "list_ex node_has_leaf (hash_nodes h) = node_has_leaf b1"
        using b ce True shape_eqD(1) [OF shb] by (simp add: hash_nodes_def)
      have ok: "ok_res E b1 (node_has_leaf b1) w1 ?r"
        by (rule subs__process_ok)
      have shp: "shape_of (put_child h1 ''#'' (fst (snd ?r))) = shape_of h1"
        using ok by (intro shape_put_child [OF Some]) (simp add: ok_res_def)
      have res: "search_hash E h1 source_id tn qos retain stored hs w1 =
          (if fst ?r = MOSQ_ERR_SUCCESS then MOSQ_ERR_SUCCESS
           else if fst ?r \<noteq> MOSQ_ERR_NO_SUBSCRIBERS then fst ?r
           else if hs then MOSQ_ERR_SUCCESS else MOSQ_ERR_NO_SUBSCRIBERS,
           put_child h1 ''#'' (fst (snd ?r)), snd (snd ?r))"
        using Some True by (simp add: search_hash_def split: prod.splits)
      show ?thesis
        unfolding res hn using ok shp
        by (auto simp: ok_res_def mosq_err_defs)
    qed
  qed
qed

lemma search_branch_ok:
  assumes fc: "find_child h1 key = Some b1"
      and sh: "shape_of h1 = shape_of h"
      and e: "extends w w0" and nf: "\<not> list_ex (failed_call E) (new_calls w w0)"
      and ok: "ok_res E b1 mb w0 r"
  shows "stage_ok E h (hs \<or> mb \<or> (eol \<and> node_has_leaf b1)) w
           (search_branch E h1 key eol source_id tn qos retain stored hs r)"
proof -
  obtain rc b2 w1 where r: "r = (rc, b2, w1)" by (cases r)
  have shb2: "shape_of b2 = shape_of b1" and e1: "extends w0 w1"
   and rc: "rc = (if list_ex (failed_call E) (new_calls w0 w1) then 1
                  else if mb then MOSQ_ERR_SUCCESS else MOSQ_ERR_NO_SUBSCRIBERS)"
   and fm: "list_ex (failed_call E) (new_calls w0 w1) \<longrightarrow> mb"
    using ok unfolding r by (simp_all add: ok_res_def)
  have ew1: "extends w w1" by (rule extends_trans [OF e e1])
  have nc1: "new_calls w w1 = new_calls w w0 @ new_calls w0 w1"
    by (rule new_calls_trans [OF e e1])
  have shp1: "shape_of (put_child h1 key b2) = shape_of h"
    using shape_put_child [OF fc shb2] sh by simp
  show ?thesis
  proof (cases "list_ex (failed_call E) (new_calls w0 w1)")
    case True
    then have "search_branch E h1 key eol source_id tn qos retain stored hs r
                 = Inl (1, put_child h1 key b2, w1)"
      using rc unfolding r by (simp add: search_branch_def mosq_err_defs)
    then show ?thesis
      using True fm shp1 ew1 nc1 by (simp add: stage_ok_def ok_res_def)
  next
    case False
    have rc': "rc = (if mb then MOSQ_ERR_SUCCESS else MOSQ_ERR_NO_SUBSCRIBERS)"
      using rc False by simp
    show ?thesis
    proof (cases eol)
      case False
      have "search_branch E h1 key eol source_id tn qos retain stored hs r
                 = Inr (hs \<or> mb, put_child h1 key b2, w1)"
        using rc' False unfolding r by (auto simp: search_branch_def mosq_err_defs)
      then show ?thesis
        using False \<open>\<not> list_ex (failed_call E) (new_calls w0 w1)\<close> nf shp1 ew1 nc1
        by (simp add: stage_ok_def)
    next
      case True
      let ?p = "subs__process E b2 source_id tn qos retain stored w1"
      have okp: "ok_res E b2 (node_has_leaf b2) w1 ?p"
        by (rule subs__process_ok)
      have nl: "node_has_leaf b2 = node_has_leaf b1"
        by (rule shape_eqD(1) [OF shb2])
      have shb3: "shape_of (fst (snd ?p)) = shape_of b1" and e2: "extends w1 (snd (snd ?p))"
       and rcp: "fst ?p = (if list_ex (failed_call E) (new_calls w1 (snd (snd ?p))) then 1
                  else if node_has_leaf b1 then MOSQ_ERR_SUCCESS else MOSQ_ERR_NO_SUBSCRIBERS)"
       and fmp: "list_ex (failed_call E) (new_calls w1 (snd (snd ?p))) \<longrightarrow> node_has_leaf b1"
        using okp shb2 nl by (simp_all add: ok_res_def)
      have ew2: "extends w (snd (snd ?p))" by (rule extends_trans [OF ew1 e2])
      have nc2: "new_calls w (snd (snd ?p)) = new_calls w w0 @ new_calls w0 w1 @ new_calls w1 (snd (snd ?p))"
        using new_calls_trans [OF ew1 e2] nc1 by simp
      have shp2: "shape_of (put_child h1 key (fst (snd ?p))) = shape_of h"
        using shape_put_child [OF fc shb3] sh by simp
      have res: "search_branch E h1 key eol source_id tn qos retain stored hs r =
          (if fst ?p = MOSQ_ERR_SUCCESS then Inr (True, put_child h1 key (fst (snd ?p)), snd (snd ?p))
           else if fst ?p \<noteq> MOSQ_ERR_NO_SUBSCRIBERS
           then Inl (fst ?p, put_child h1 key (fst (snd ?p)), snd (snd ?p))
           else Inr (hs \<or> mb, put_child h1 key (fst (snd ?p)), snd (snd ?p)))"
        using rc' True unfolding r by (auto simp: search_branch_def mosq_err_defs split: prod.splits)
      show ?thesis
        unfolding res
        using True \<open>\<not> list_ex (failed_call E) (new_calls w0 w1)\<close> nf shp2 ew2 nc2 rcp fmp
        by (auto simp: stage_ok_def ok_res_def mosq_err_defs)
    qed
  qed
qed

lemma any_branch_nodes:
  "list_ex node_has_leaf (branch_nodes f eol br) =
     (case br of None \<Rightarrow> False | Some b \<Rightarrow> list_ex node_has_leaf (f b) \<or> (eol \<and> node_has_leaf b))"
  by (cases br) (auto simp: branch_nodes_def)

lemma any_hash_nodes_shape:
  assumes "shape_of h = shape_of h'"
  shows "list_ex node_has_leaf (hash_nodes h) = list_ex node_has_leaf (hash_nodes h')"
proof (cases "find_child h ''#''")
  case None
  then show ?thesis
    using shape_find_child_None [OF assms None] by (simp add: hash_nodes_def)
next
  case (Some b)
  obtain b' where b': "find_child h' ''#'' = Some b'" and sh: "shape_of b = shape_of b'"
    by (rule shape_find_child_Some [OF assms Some])
  show ?thesis
    using Some b' shape_children_empty [OF sh] shape_eqD(1) [OF sh]
    by (simp add: hash_nodes_def)
qed

lemma any_matched_nodes_shape:
  "shape_of h = shape_of h' \<Longrightarrow>
   list_ex node_has_leaf (matched_nodes h ts) = list_ex node_has_leaf (matched_nodes h' ts)"
proof (induction ts arbitrary: h h')
  case Nil
  show ?case using any_hash_nodes_shape [OF Nil] by simp
next
  case (Cons t ts)
  have br: "list_ex node_has_leaf (branch_nodes (\<lambda>b. matched_nodes b ts) (ts = []) (find_child h k))
          = list_ex node_has_leaf (branch_nodes (\<lambda>b. matched_nodes b ts) (ts = []) (find_child h' k))"
    for k
  proof (cases "find_child h k")
    case None
    then show ?thesis
      using shape_find_child_None [OF Cons.prems None] by (simp add: any_branch_nodes)
  next
    case (Some b)
    obtain b' where b': "find_child h' k = Some b'" and sh: "shape_of b = shape_of b'"
      by (rule shape_find_child_Some [OF Cons.prems Some])
    show ?thesis
      using Some b' Cons.IH [OF sh] shape_eqD(1) [OF sh] by (simp add: any_branch_nodes)
  qed
  show ?case
    using br [of t] br [of "''+''"] any_hash_nodes_shape [OF Cons.prems] by simp
qed

lemma ok_res_failed_mono:
  "ok_res E h m w r \<Longrightarrow> fst r = 1 \<Longrightarrow> m \<longrightarrow> m' \<Longrightarrow> ok_res E h m' w r"
  by (auto simp: ok_res_def mosq_err_defs split: if_splits)

lemma sub__search_ok:
  "ok_res E h (list_ex node_has_leaf (matched_nodes h ts)) w
     (sub__search E h ts source_id tn qos retain stored w)"
proof (induction ts arbitrary: h w)
  case Nil
  have "ok_res E h (False \<or> list_ex node_has_leaf (hash_nodes h)) w
          (search_hash E h source_id tn qos retain stored False w)"
    by (rule search_hash_ok [OF refl extends_refl]) simp
  then show ?case
    by simp
next
  case (Cons t ts)
  let ?below = "\<lambda>b. matched_nodes b ts"
  let ?m1 = "list_ex node_has_leaf (branch_nodes ?below (ts = []) (find_child h t))"
  let ?m2 = "list_ex node_has_leaf (branch_nodes ?below (ts = []) (find_child h ''+''))"
  let ?m3 = "list_ex node_has_leaf (hash_nodes h)"
  let ?M = "list_ex node_has_leaf (matched_nodes h (t # ts))"
  have M: "?M = (?m1 \<or> ?m2 \<or> ?m3)" by simp
  define s1 where "s1 =
     (case find_child h t of
        None \<Rightarrow> Inr (False, h, w)
      | Some branch \<Rightarrow>
          search_branch E h t (ts = []) source_id tn qos retain stored False
            (sub__search E branch ts source_id tn qos retain stored w))"
  have ok1: "stage_ok E h ?m1 w s1"
  proof (cases "find_child h t")
    case None
    then show ?thesis by (simp add: s1_def stage_ok_def any_branch_nodes)
  next
    case (Some b)
    have nf0: "\<not> list_ex (failed_call E) (new_calls w w)" by simp
    have "stage_ok E h (False \<or> list_ex node_has_leaf (matched_nodes b ts)
                          \<or> (ts = [] \<and> node_has_leaf b)) w
           (search_branch E h t (ts = []) source_id tn qos retain stored False
              (sub__search E b ts source_id tn qos retain stored w))"
      by (rule search_branch_ok [OF Some refl extends_refl nf0 Cons.IH])
    then show ?thesis
      using Some by (simp add: s1_def any_branch_nodes)
  qed
  show ?case
  proof (cases s1)
    case (Inl r)
    have "sub__search E h (t # ts) source_id tn qos retain stored w = r"
      using Inl by (simp add: s1_def)
    moreover have "ok_res E h ?m1 w r" and "fst r = 1"
      using ok1 Inl by (simp_all add: stage_ok_def)
    then have "ok_res E h ?M w r"
      by (rule ok_res_failed_mono) (simp only: M, blast)
    ultimately show ?thesis by simp
  next
    case (Inr x)
    obtain hs1 h1 w1 where x: "x = (hs1, h1, w1)" by (cases x)
    have sh1: "shape_of h1 = shape_of h" and e1: "extends w w1"
      and nf1: "\<not> list_ex (failed_call E) (new_calls w w1)" and hs1: "hs1 = ?m1"
      using ok1 Inr x by (simp_all add: stage_ok_def)
    define s2 where "s2 =
       (case find_child h1 ''+'' of
          None \<Rightarrow> Inr (hs1, h1, w1)
        | Some branch \<Rightarrow>
            search_branch E h1 ''+'' (ts = []) source_id tn qos retain stored hs1
              (sub__search E branch ts source_id tn qos retain stored w1))"
    have ok2: "stage_ok E h (?m1 \<or> ?m2) w s2"
    proof (cases "find_child h1 ''+''")
      case None
      have "find_child h ''+'' = None"
        by (rule shape_find_child_None [OF sh1 None])
      then show ?thesis
        using None sh1 e1 nf1 hs1 by (simp add: s2_def stage_ok_def any_branch_nodes)
    next
      case (Some b1)
      obtain b where b: "find_child h ''+'' = Some b" and shb: "shape_of b1 = shape_of b"
        by (rule shape_find_child_Some [OF sh1 Some])
      have m2: "?m2 = (list_ex node_has_leaf (matched_nodes b1 ts) \<or> (ts = [] \<and> node_has_leaf b1))"
        using b any_matched_nodes_shape [OF shb, of ts] shape_eqD(1) [OF shb]
        by (simp add: any_branch_nodes)
      have "stage_ok E h (hs1 \<or> list_ex node_has_leaf (matched_nodes b1 ts)
                          \<or> (ts = [] \<and> node_has_leaf b1)) w
           (search_branch E h1 ''+'' (ts = []) source_id tn qos retain stored hs1
              (sub__search E b1 ts source_id tn qos retain stored w1))"
        by (rule search_branch_ok [OF Some sh1 e1 nf1 Cons.IH])
      moreover have "(hs1 \<or> list_ex node_has_leaf (matched_nodes b1 ts)
                          \<or> (ts = [] \<and> node_has_leaf b1)) = (?m1 \<or> ?m2)"
        unfolding hs1 m2 by blast
      ultimately show ?thesis
        using Some by (simp only: s2_def option.case)
    qed
    have unfold: "sub__search E h (t # ts) source_id tn qos retain stored w =
        (case s2 of Inl r \<Rightarrow> r
         | Inr (hs2, subhier2, w2) \<Rightarrow>
             search_hash E subhier2 source_id tn qos retain stored hs2 w2)"
      using Inr x by (simp add: s1_def s2_def)
    show ?thesis
    proof (cases s2)
      case (Inl r)
      have "ok_res E h (?m1 \<or> ?m2) w r" and "fst r = 1"
        using ok2 Inl by (simp_all add: stage_ok_def)
      then have "ok_res E h ?M w r"
        by (rule ok_res_failed_mono) (simp only: M, blast)
      then show ?thesis
        unfolding unfold using Inl by simp
    next
      case (Inr y)
      obtain hs2 h2 w2 where y: "y = (hs2, h2, w2)" by (cases y)
      have sh2: "shape_of h2 = shape_of h" and e2: "extends w w2"
        and nf2: "\<not> list_ex (failed_call E) (new_calls w w2)" and hs2: "hs2 = (?m1 \<or> ?m2)"
        using ok2 Inr y by (simp_all add: stage_ok_def)
      have "ok_res E h (hs2 \<or> ?m3) w (search_hash E h2 source_id tn qos retain stored hs2 w2)"
        by (rule search_hash_ok [OF sh2 e2 nf2])
      moreover have "(hs2 \<or> ?m3) = ?M"
        unfolding hs2 M by blast
      ultimately show ?thesis
        unfolding unfold using Inr y by simp
    qed
  qed
qed

lemmas eval_defs =
  subs__process_def subs__shared_process_def subs__send_def search_branch_def search_hash_def
  find_child_def put_child_def log_call_def mosquitto__mid_generate_def new_calls_def
  MQTT_SUB_OPT_GET_QOS_def MQTT_SUB_OPT_GET_NO_LOCAL_def MQTT_SUB_OPT_GET_RETAIN_AS_PUBLISHED_def
  Let_def mosq_err_defs ex_defs ex_tree_def ex_node_def

text \<open>
  C3, as stated, fails: a matched node whose only leaf is refused by the ACL, or skipped
  by no-local, makes \<^verbatim>\<open>sub__search\<close> return \<^verbatim>\<open>MOSQ_ERR_SUCCESS\<close> although nothing reached
  the queue.
\<close>

theorem sub__search_success_counterexample:
  "fst (sub__search (ex_env {1} {}) (ex_tree [ex_node ''a'' [ex_leaf 1 0]]) [''x'', ''a'']
          (Some ''c2'') ''a'' 0 0 ex_msg ex_world) = MOSQ_ERR_SUCCESS
   \<and> sink_targets (new_calls ex_world (snd (snd
        (sub__search (ex_env {1} {}) (ex_tree [ex_node ''a'' [ex_leaf 1 0]]) [''x'', ''a'']
          (Some ''c2'') ''a'' 0 0 ex_msg ex_world)))) = []
   \<and> fst (sub__search (ex_env {} {}) (ex_tree [ex_node ''a'' [ex_leaf 1 4]]) [''x'', ''a'']
          (Some ''c1'') ''a'' 0 0 ex_msg ex_world) = MOSQ_ERR_SUCCESS
   \<and> new_calls ex_world (snd (snd
        (sub__search (ex_env {} {}) (ex_tree [ex_node ''a'' [ex_leaf 1 4]]) [''x'', ''a'']
          (Some ''c1'') ''a'' 0 0 ex_msg ex_world))) = []"
  by (simp add: eval_defs)

text \<open>
  C3, amended: \<^verbatim>\<open>sub__search\<close> returns \<^verbatim>\<open>MOSQ_ERR_NO_SUBSCRIBERS\<close> exactly when no matched node
  holds a leaf (normal or shared); it returns \<^verbatim>\<open>MOSQ_ERR_SUCCESS\<close> exactly when some matched
  node holds a leaf and no delivery attempt failed, whether or not a leaf passed the
  delivery decision; the only other result is 1.
\<close>

theorem sub__search_result:
  assumes "hier_groups_nonempty h"
      and "sub__search E h ts source_id tn qos retain stored w = (rc, h', w')"
  shows "(rc = MOSQ_ERR_NO_SUBSCRIBERS \<longleftrightarrow> \<not> list_ex node_has_leaf (matched_nodes h ts))
       \<and> (rc = MOSQ_ERR_SUCCESS \<longleftrightarrow>
            list_ex node_has_leaf (matched_nodes h ts)
            \<and> \<not> list_ex (failed_call E) (new_calls w w'))
       \<and> (rc = MOSQ_ERR_SUCCESS \<or> rc = MOSQ_ERR_NO_SUBSCRIBERS \<or> rc = 1)"
  using sub__search_ok [of E h ts w source_id tn qos retain stored] assms(2)
  by (auto simp: ok_res_def mosq_err_defs split: if_splits)

theorem sub__search_result_witness:
  "hier_groups_nonempty (ex_tree [ex_node ''a'' [ex_leaf 1 0]])
   \<and> list_ex node_has_leaf (matched_nodes (ex_tree [ex_node ''a'' [ex_leaf 1 0]]) [''x'', ''a''])
   \<and> \<not> list_ex node_has_leaf (matched_nodes (ex_tree [ex_node ''a'' [ex_leaf 1 0]]) [''x'', ''b''])
   \<and> fst (sub__search (ex_env {1} {}) (ex_tree [ex_node ''a'' [ex_leaf 1 0]]) [''x'', ''a'']
          (Some ''c2'') ''a'' 0 0 ex_msg ex_world) = MOSQ_ERR_SUCCESS
   \<and> fst (sub__search (ex_env {1} {}) (ex_tree [ex_node ''a'' [ex_leaf 1 0]]) [''x'', ''b'']
          (Some ''c2'') ''b'' 0 0 ex_msg ex_world) = MOSQ_ERR_NO_SUBSCRIBERS"
proof -
  let ?h = "ex_tree [ex_node ''a'' [ex_leaf 1 0]]"
  let ?a = "sub__search (ex_env {1} {}) ?h [''x'', ''a''] (Some ''c2'') ''a'' 0 0 ex_msg ex_world"
  let ?b = "sub__search (ex_env {1} {}) ?h [''x'', ''b''] (Some ''c2'') ''b'' 0 0 ex_msg ex_world"
  have wf: "hier_groups_nonempty ?h"
    by (simp add: ex_tree_def ex_node_def groups_nonempty_def)
  have a: "?a = (fst ?a, fst (snd ?a), snd (snd ?a))" and b: "?b = (fst ?b, fst (snd ?b), snd (snd ?b))"
    by simp_all
  have ma: "list_ex node_has_leaf (matched_nodes ?h [''x'', ''a''])"
    by (simp add: ex_tree_def ex_node_def ex_leaf_def node_has_leaf_def hash_nodes_def
          branch_nodes_def find_child_def)
  have mb: "\<not> list_ex node_has_leaf (matched_nodes ?h [''x'', ''b''])"
    by (simp add: ex_tree_def ex_node_def ex_leaf_def node_has_leaf_def hash_nodes_def
          branch_nodes_def find_child_def)
  have nf: "\<not> list_ex (failed_call (ex_env {1} {})) (new_calls ex_world (snd (snd ?a)))"
    by (simp add: eval_defs)
  show ?thesis
    using wf ma mb nf sub__search_result [OF wf a] sub__search_result [OF wf b]
    by simp
qed

lemma subs__process_attempts:
  assumes ne: "groups_nonempty (shared hier)"
  shows "acl_checked (new_calls w (snd (snd (subs__process E hier (Some sid) tn qos retain stored w))))
         = map (\<lambda>g. leaf_context (hd (snd g))) (shared hier)
           @ map leaf_context (filter (\<lambda>l. \<not> skipped w sid l) (subs hier))"
proof -
  let ?s = "subs__shared_process_loop E tn qos retain stored 0 (shared hier) w"
  let ?w1 = "snd (snd ?s)"
  let ?l = "subs__process_loop E sid tn qos retain stored (fst ?s) (subs hier) ?w1"
  have w': "snd (snd (subs__process E hier (Some sid) tn qos retain stored w)) = snd ?l"
    by (auto simp: subs__process_def subs__shared_process_def split: prod.splits)
  note f1 = subs__shared_process_loop_facts [OF ne, of w E tn qos retain stored 0]
  note f2 = subs__process_loop_facts [of ?w1 E sid tn qos retain stored "fst ?s" "subs hier"]
  have e1: "extends w ?w1" using f1 by simp
  have e2: "extends ?w1 (snd ?l)" using f2 by simp
  have sk: "skipped ?w1 sid l = skipped w sid l" for l
    by (rule skipped_extends [OF e1])
  show ?thesis
    unfolding w' new_calls_trans [OF e1 e2] using f1 f2 by (simp add: sk)
qed

lemma subs__process_attempts_none:
  assumes ne: "groups_nonempty (shared hier)"
  shows "acl_checked (new_calls w (snd (snd (subs__process E hier None tn qos retain stored w))))
         = map (\<lambda>g. leaf_context (hd (snd g))) (shared hier)"
proof -
  let ?s = "subs__shared_process_loop E tn qos retain stored 0 (shared hier) w"
  have w': "snd (snd (subs__process E hier None tn qos retain stored w)) = snd (snd ?s)"
    by (auto simp: subs__process_def subs__shared_process_def split: prod.splits)
  show ?thesis
    unfolding w' using subs__shared_process_loop_facts [OF ne, of w E tn qos retain stored 0]
    by simp
qed

lemma sub__search_literal_error:
  assumes fc: "find_child h t = Some b"
      and err: "fst (sub__search E b ts source_id tn qos retain stored w) = 1"
  shows "sub__search E h (t # ts) source_id tn qos retain stored w =
           (1, put_child h t (fst (snd (sub__search E b ts source_id tn qos retain stored w))),
            snd (snd (sub__search E b ts source_id tn qos retain stored w)))"
proof -
  obtain rc b1 w1 where r: "sub__search E b ts source_id tn qos retain stored w = (rc, b1, w1)"
    by (cases "sub__search E b ts source_id tn qos retain stored w")
  have rc: "rc = 1" using err r by simp
  have "search_branch E h t (ts = []) source_id tn qos retain stored False (rc, b1, w1)
          = Inl (1, put_child h t b1, w1)"
    unfolding rc by (simp add: search_branch_def mosq_err_defs)
  then show ?thesis
    using fc r by simp
qed

lemma sub__search_rc_cases:
  "fst (sub__search E h ts source_id tn qos retain stored w) = MOSQ_ERR_SUCCESS
   \<or> fst (sub__search E h ts source_id tn qos retain stored w) = MOSQ_ERR_NO_SUBSCRIBERS
   \<or> fst (sub__search E h ts source_id tn qos retain stored w) = 1"
  using sub__search_ok [of E h ts w source_id tn qos retain stored]
  by (auto simp: ok_res_def split: if_splits)

lemma sub__search_literal_process_error:
  assumes fc: "find_child h t = Some b"
      and ok: "fst (sub__search E b [] source_id tn qos retain stored w) \<noteq> 1"
      and err: "fst (subs__process E (fst (snd (sub__search E b [] source_id tn qos retain stored w)))
                  source_id tn qos retain stored
                  (snd (snd (sub__search E b [] source_id tn qos retain stored w)))) = 1"
  shows "fst (sub__search E h [t] source_id tn qos retain stored w) = 1
       \<and> snd (snd (sub__search E h [t] source_id tn qos retain stored w))
           = snd (snd (subs__process E (fst (snd (sub__search E b [] source_id tn qos retain stored w)))
                  source_id tn qos retain stored
                  (snd (snd (sub__search E b [] source_id tn qos retain stored w)))))"
proof -
  obtain rc b1 w1 where r: "sub__search E b [] source_id tn qos retain stored w = (rc, b1, w1)"
    by (cases "sub__search E b [] source_id tn qos retain stored w")
  obtain rc' b2 w2 where p: "subs__process E b1 source_id tn qos retain stored w1 = (rc', b2, w2)"
    by (cases "subs__process E b1 source_id tn qos retain stored w1")
  have rc: "rc = MOSQ_ERR_SUCCESS \<or> rc = MOSQ_ERR_NO_SUBSCRIBERS"
    using sub__search_rc_cases [of E b "[]" source_id tn qos retain stored w] ok r by auto
  have rc': "rc' = 1" using err r p by simp
  have "search_branch E h t True source_id tn qos retain stored False (rc, b1, w1)
          = Inl (1, put_child h t b2, w2)"
    using rc p unfolding rc' by (auto simp: search_branch_def mosq_err_defs)
  then have "sub__search E h [t] source_id tn qos retain stored w = (1, put_child h t b2, w2)"
    using fc r by (simp del: sub__search.simps(1) add: sub__search.simps(2))
  then show ?thesis
    using r p by simp
qed

text \<open>
  C2, as stated, fails: with two leaves on the matched node, the queue failing for the
  first and accepting the second, the result is 1; and with the failing leaf under the
  literal child and another leaf under the \<^verbatim>\<open>+\<close> child, the \<^verbatim>\<open>+\<close> child is never visited.
\<close>

theorem sub__search_delivery_errors_counterexample:
  "fst (sub__search (ex_env {} {1}) (ex_tree [ex_node ''a'' [ex_leaf 1 0, ex_leaf 2 0]])
          [''x'', ''a''] (Some ''c9'') ''a'' 0 0 ex_msg ex_world) = 1
   \<and> sink_targets (new_calls ex_world (snd (snd
        (sub__search (ex_env {} {1}) (ex_tree [ex_node ''a'' [ex_leaf 1 0, ex_leaf 2 0]])
          [''x'', ''a''] (Some ''c9'') ''a'' 0 0 ex_msg ex_world)))) = [1, 2]
   \<and> db__message_insert_outgoing (ex_env {} {1}) 2 0 0 False ex_msg 0 = 0
   \<and> fst (sub__search (ex_env {} {1})
          (ex_tree [ex_node ''a'' [ex_leaf 1 0], ex_node ''+'' [ex_leaf 2 0]])
          [''x'', ''a''] (Some ''c9'') ''a'' 0 0 ex_msg ex_world) = 1
   \<and> acl_checked (new_calls ex_world (snd (snd
        (sub__search (ex_env {} {1})
          (ex_tree [ex_node ''a'' [ex_leaf 1 0], ex_node ''+'' [ex_leaf 2 0]])
          [''x'', ''a''] (Some ''c9'') ''a'' 0 0 ex_msg ex_world)))) = [1]"
  by (simp add: eval_defs)

text \<open>
  C2, amended: \<^verbatim>\<open>sub__search\<close> returns 1 exactly when at least one delivery attempt of the
  run failed (an ACL error or a failed enqueue), whatever the other attempts did; on a
  matched node every shared group's head and every normal leaf that is not skipped is
  attempted, whatever failed before it (with no source id, the head of every shared group
  and no normal leaf); and when the search below the literal child, or the delivery at
  the literal child where the levels end, returns 1, the whole search returns 1 with the
  world as that step left it: no other branch is visited.
\<close>

theorem sub__search_delivery_errors:
  assumes wf: "hier_groups_nonempty h" and ne: "groups_nonempty (shared hier)"
  shows "(fst (sub__search E h ts source_id tn qos retain stored w) = 1 \<longleftrightarrow>
            list_ex (failed_call E)
              (new_calls w (snd (snd (sub__search E h ts source_id tn qos retain stored w)))))
       \<and> acl_checked (new_calls w (snd (snd (subs__process E hier (Some sid) tn qos retain stored w))))
           = map (\<lambda>g. leaf_context (hd (snd g))) (shared hier)
             @ map leaf_context (filter (\<lambda>l. \<not> skipped w sid l) (subs hier))
       \<and> (\<forall>b t. find_child h t = Some b
              \<and> fst (sub__search E b ts source_id tn qos retain stored w) = 1 \<longrightarrow>
            fst (sub__search E h (t # ts) source_id tn qos retain stored w) = 1
            \<and> snd (snd (sub__search E h (t # ts) source_id tn qos retain stored w))
                = snd (snd (sub__search E b ts source_id tn qos retain stored w)))
       \<and> (\<forall>b t. find_child h t = Some b
              \<and> fst (sub__search E b [] source_id tn qos retain stored w) \<noteq> 1
              \<and> fst (subs__process E
                       (fst (snd (sub__search E b [] source_id tn qos retain stored w)))
                       source_id tn qos retain stored
                       (snd (snd (sub__search E b [] source_id tn qos retain stored w)))) = 1 \<longrightarrow>
            fst (sub__search E h [t] source_id tn qos retain stored w) = 1
            \<and> snd (snd (sub__search E h [t] source_id tn qos retain stored w))
                = snd (snd (subs__process E
                       (fst (snd (sub__search E b [] source_id tn qos retain stored w)))
                       source_id tn qos retain stored
                       (snd (snd (sub__search E b [] source_id tn qos retain stored w))))))
       \<and> acl_checked (new_calls w (snd (snd (subs__process E hier None tn qos retain stored w))))
           = map (\<lambda>g. leaf_context (hd (snd g))) (shared hier)"
proof -
  have a: "fst (sub__search E h ts source_id tn qos retain stored w) = 1 \<longleftrightarrow>
            list_ex (failed_call E)
              (new_calls w (snd (snd (sub__search E h ts source_id tn qos retain stored w))))"
    using sub__search_ok [of E h ts w source_id tn qos retain stored]
    by (auto simp: ok_res_def mosq_err_defs split: if_splits)
  have c: "fst (sub__search E h (t # ts) source_id tn qos retain stored w) = 1
            \<and> snd (snd (sub__search E h (t # ts) source_id tn qos retain stored w))
                = snd (snd (sub__search E b ts source_id tn qos retain stored w))"
    if "find_child h t = Some b" and "fst (sub__search E b ts source_id tn qos retain stored w) = 1"
    for b t
    by (simp only: sub__search_literal_error [OF that] fst_conv snd_conv)
  have d: "fst (sub__search E h [t] source_id tn qos retain stored w) = 1
            \<and> snd (snd (sub__search E h [t] source_id tn qos retain stored w))
                = snd (snd (subs__process E
                       (fst (snd (sub__search E b [] source_id tn qos retain stored w)))
                       source_id tn qos retain stored
                       (snd (snd (sub__search E b [] source_id tn qos retain stored w)))))"
    if "find_child h t = Some b"
       "fst (sub__search E b [] source_id tn qos retain stored w) \<noteq> 1"
       "fst (subs__process E
               (fst (snd (sub__search E b [] source_id tn qos retain stored w)))
               source_id tn qos retain stored
               (snd (snd (sub__search E b [] source_id tn qos retain stored w)))) = 1"
    for b t
    by (rule sub__search_literal_process_error [OF that])
  show ?thesis
    using a subs__process_attempts [OF ne] c d subs__process_attempts_none [OF ne] by blast
qed

theorem sub__search_delivery_errors_witness:
  "hier_groups_nonempty (ex_tree [ex_node ''a'' [ex_leaf 1 0], ex_node ''+'' [ex_leaf 2 0]])
   \<and> hier_groups_nonempty (Subhier ''x'' [ex_node ''a'' [ex_leaf 1 0], ex_node ''+'' [ex_leaf 2 0]] [] [])
   \<and> groups_nonempty (shared (Subhier ''a'' [] [ex_leaf 1 0, ex_leaf 2 0] []))
   \<and> list_ex (failed_call (ex_env {} {1})) (new_calls ex_world (snd (snd
        (sub__search (ex_env {} {1})
          (ex_tree [ex_node ''a'' [ex_leaf 1 0], ex_node ''+'' [ex_leaf 2 0]])
          [''x'', ''a''] (Some ''c9'') ''a'' 0 0 ex_msg ex_world))))
   \<and> acl_checked (new_calls ex_world (snd (snd
        (subs__process (ex_env {} {1}) (Subhier ''a'' [] [ex_leaf 1 0, ex_leaf 2 0] [])
           (Some ''c9'') ''a'' 0 0 ex_msg ex_world)))) = [1, 2]
   \<and> find_child (ex_tree [ex_node ''a'' [ex_leaf 1 0], ex_node ''+'' [ex_leaf 2 0]]) ''x''
       = Some (Subhier ''x'' [ex_node ''a'' [ex_leaf 1 0], ex_node ''+'' [ex_leaf 2 0]] [] [])
   \<and> fst (sub__search (ex_env {} {1})
          (Subhier ''x'' [ex_node ''a'' [ex_leaf 1 0], ex_node ''+'' [ex_leaf 2 0]] [] [])
          [''a''] (Some ''c9'') ''a'' 0 0 ex_msg ex_world) = 1
   \<and> snd (snd (sub__search (ex_env {} {1})
          (ex_tree [ex_node ''a'' [ex_leaf 1 0], ex_node ''+'' [ex_leaf 2 0]])
          [''x'', ''a''] (Some ''c9'') ''a'' 0 0 ex_msg ex_world))
       = snd (snd (sub__search (ex_env {} {1})
          (Subhier ''x'' [ex_node ''a'' [ex_leaf 1 0], ex_node ''+'' [ex_leaf 2 0]] [] [])
          [''a''] (Some ''c9'') ''a'' 0 0 ex_msg ex_world))
   \<and> find_child (Subhier ''x'' [ex_node ''a'' [ex_leaf 1 0], ex_node ''+'' [ex_leaf 2 0]] [] []) ''a''
       = Some (Subhier ''a'' [] [ex_leaf 1 0] [])
   \<and> fst (sub__search (ex_env {} {1}) (Subhier ''a'' [] [ex_leaf 1 0] [])
          [] (Some ''c9'') ''a'' 0 0 ex_msg ex_world) \<noteq> 1
   \<and> fst (subs__process (ex_env {} {1})
          (fst (snd (sub__search (ex_env {} {1}) (Subhier ''a'' [] [ex_leaf 1 0] [])
             [] (Some ''c9'') ''a'' 0 0 ex_msg ex_world)))
          (Some ''c9'') ''a'' 0 0 ex_msg
          (snd (snd (sub__search (ex_env {} {1}) (Subhier ''a'' [] [ex_leaf 1 0] [])
             [] (Some ''c9'') ''a'' 0 0 ex_msg ex_world)))) = 1
   \<and> acl_checked (new_calls ex_world (snd (snd (sub__search (ex_env {} {1})
          (Subhier ''x'' [ex_node ''a'' [ex_leaf 1 0], ex_node ''+'' [ex_leaf 2 0]] [] [])
          [''a''] (Some ''c9'') ''a'' 0 0 ex_msg ex_world)))) = [1]
   \<and> acl_checked (new_calls ex_world (snd (snd
        (subs__process (ex_env {} {1}) (Subhier ''a'' [] [ex_leaf 1 0, ex_leaf 2 0] [])
           None ''a'' 0 0 ex_msg ex_world)))) = []"
proof -
  let ?E = "ex_env {} {1}"
  let ?h = "ex_tree [ex_node ''a'' [ex_leaf 1 0], ex_node ''+'' [ex_leaf 2 0]]"
  let ?b = "Subhier ''x'' [ex_node ''a'' [ex_leaf 1 0], ex_node ''+'' [ex_leaf 2 0]] [] []"
  let ?a = "Subhier ''a'' [] [ex_leaf 1 0] []"
  let ?n = "Subhier ''a'' [] [ex_leaf 1 0, ex_leaf 2 0] []"
  have wf: "hier_groups_nonempty ?h"
    by (simp add: ex_tree_def ex_node_def groups_nonempty_def)
  have wfb: "hier_groups_nonempty ?b"
    by (simp add: ex_node_def groups_nonempty_def)
  have ne: "groups_nonempty (shared ?n)"
    by (simp add: groups_nonempty_def)
  have rc: "fst (sub__search ?E ?h [''x'', ''a''] (Some ''c9'') ''a'' 0 0 ex_msg ex_world) = 1"
    by (simp add: eval_defs)
  have fb: "find_child ?h ''x'' = Some ?b"
    by (simp add: find_child_def ex_tree_def)
  have fa: "find_child ?b ''a'' = Some ?a"
    by (simp add: find_child_def ex_node_def)
  have sa: "fst (sub__search ?E ?a [] (Some ''c9'') ''a'' 0 0 ex_msg ex_world) \<noteq> 1"
    by (simp add: eval_defs)
  have pa: "fst (subs__process ?E
          (fst (snd (sub__search ?E ?a [] (Some ''c9'') ''a'' 0 0 ex_msg ex_world)))
          (Some ''c9'') ''a'' 0 0 ex_msg
          (snd (snd (sub__search ?E ?a [] (Some ''c9'') ''a'' 0 0 ex_msg ex_world)))) = 1"
    by (simp add: eval_defs)
  have acl: "acl_checked (new_calls ex_world (snd (snd (subs__process ?E
          (fst (snd (sub__search ?E ?a [] (Some ''c9'') ''a'' 0 0 ex_msg ex_world)))
          (Some ''c9'') ''a'' 0 0 ex_msg
          (snd (snd (sub__search ?E ?a [] (Some ''c9'') ''a'' 0 0 ex_msg ex_world))))))) = [1]"
    by (simp add: eval_defs)
  note top = sub__search_delivery_errors [OF wf ne, of ?E "[''x'', ''a'']" "Some ''c9''"
        "''a''" 0 0 ex_msg ex_world "''c9''"]
  note lit = sub__search_delivery_errors [OF wfb ne, of ?E "[]" "Some ''c9''"
        "''a''" 0 0 ex_msg ex_world "''c9''"]
  have b1: "fst (sub__search ?E ?b [''a''] (Some ''c9'') ''a'' 0 0 ex_msg ex_world) = 1"
   and b2: "snd (snd (sub__search ?E ?b [''a''] (Some ''c9'') ''a'' 0 0 ex_msg ex_world))
       = snd (snd (subs__process ?E
          (fst (snd (sub__search ?E ?a [] (Some ''c9'') ''a'' 0 0 ex_msg ex_world)))
          (Some ''c9'') ''a'' 0 0 ex_msg
          (snd (snd (sub__search ?E ?a [] (Some ''c9'') ''a'' 0 0 ex_msg ex_world)))))"
    using lit fa sa pa by blast+
  note up = sub__search_delivery_errors [OF wf ne, of ?E "[''a'']" "Some ''c9''"
        "''a''" 0 0 ex_msg ex_world "''c9''"]
  have t2: "snd (snd (sub__search ?E ?h [''x'', ''a''] (Some ''c9'') ''a'' 0 0 ex_msg ex_world))
       = snd (snd (sub__search ?E ?b [''a''] (Some ''c9'') ''a'' 0 0 ex_msg ex_world))"
    using up fb b1 by blast
  have t1: "list_ex (failed_call ?E) (new_calls ex_world (snd (snd
        (sub__search ?E ?h [''x'', ''a''] (Some ''c9'') ''a'' 0 0 ex_msg ex_world))))"
    using top rc by blast
  have t3: "acl_checked (new_calls ex_world (snd (snd
        (subs__process ?E ?n (Some ''c9'') ''a'' 0 0 ex_msg ex_world)))) = [1, 2]"
    using top by (simp add: skipped_def ex_defs MQTT_SUB_OPT_GET_NO_LOCAL_def)
  have t4: "acl_checked (new_calls ex_world (snd (snd
        (subs__process ?E ?n None ''a'' 0 0 ex_msg ex_world)))) = []"
    using top by simp
  show ?thesis
    using wf wfb ne t1 t3 fb b1 t2 fa sa pa acl t4 unfolding b2 by simp
qed

section \<open>What a publish delivers\<close>

lemma delivered_refl: "delivered E tn stored s w [] [] w"
  by (simp add: delivered_def)

lemma node_checks_extends: "extends w w' \<Longrightarrow> node_checks w' s n = node_checks w s n"
  by (cases s) (simp_all add: node_checks_def skipped_extends)

lemma node_sinks_extends: "extends w w' \<Longrightarrow> node_sinks E tn stored w' s n = node_sinks E tn stored w s n"
  by (cases s) (simp_all add: node_sinks_def skipped_extends)

lemma map_shared_subs_cong:
  assumes f: "\<And>n m. shared n = shared m \<Longrightarrow> subs n = subs m \<Longrightarrow> f n = f m"
  shows "map shared ms = map shared ns \<Longrightarrow> map subs ms = map subs ns \<Longrightarrow> map f ms = map f ns"
proof (induction ms arbitrary: ns)
  case Nil
  then show ?case by simp
next
  case (Cons m ms)
  obtain n ns' where ns: "ns = n # ns'"
    using Cons.prems(1) by (cases ns) auto
  show ?case
    using Cons.prems Cons.IH [of ns'] f [of m n] unfolding ns by simp
qed

lemma subs__process_delivered:
  assumes ne: "groups_nonempty (shared n)"
  shows "delivered E tn stored source_id w [n]
           [fst (snd (subs__process E n source_id tn qos retain stored w))]
           (snd (snd (subs__process E n source_id tn qos retain stored w)))
       \<and> children (fst (snd (subs__process E n source_id tn qos retain stored w))) = children n"
proof -
  let ?s = "subs__shared_process_loop E tn qos retain stored 0 (shared n) w"
  let ?h1 = "Subhier (topic n) (children n) (subs n) (fst (snd ?s))"
  let ?w1 = "snd (snd ?s)"
  let ?l = "\<lambda>sid. subs__process_loop E sid tn qos retain stored (fst ?s) (subs n) ?w1"
  let ?w2 = "case source_id of None \<Rightarrow> ?w1 | Some sid \<Rightarrow> snd (?l sid)"
  have res: "snd (subs__process E n source_id tn qos retain stored w) = (?h1, ?w2)"
    by (cases source_id) (auto simp: subs__process_def subs__shared_process_def split: prod.splits)
  have rot: "fst (snd ?s) = map rotate_group (shared n)"
    by (rule subs__shared_process_loop_rotates)
  note f1 = subs__shared_process_loop_facts [OF ne, of w E tn qos retain stored 0]
  have e1: "extends w ?w1" using f1 by simp
  have sk: "skipped ?w1 sid l = skipped w sid l" for sid l
    by (rule skipped_extends [OF e1])
  show ?thesis
  proof (cases source_id)
    case None
    show ?thesis
      unfolding res using None f1 rot
      by (simp add: delivered_def node_checks_def node_sinks_def)
  next
    case (Some sid)
    note f2 = subs__process_loop_facts [of ?w1 E sid tn qos retain stored "fst ?s" "subs n"]
    have e2: "extends ?w1 (snd (?l sid))" using f2 by simp
    show ?thesis
      unfolding res using Some f1 f2 rot extends_trans [OF e1 e2] new_calls_trans [OF e1 e2]
      by (simp add: delivered_def node_checks_def node_sinks_def sk)
  qed
qed

lemma matched_nodes_children:
  "children n = children n' \<Longrightarrow> matched_nodes n ts = matched_nodes n' ts"
  by (cases ts) (simp_all add: hash_nodes_def find_child_def)

lemma hash_nodes_put_child:
  "children b = [] \<Longrightarrow> hash_nodes (put_child h ''#'' b) = [b]"
  by (simp add: hash_nodes_def find_child_put_child)

lemma search_hash_delivered:
  assumes ne: "list_all (\<lambda>n. groups_nonempty (shared n)) (hash_nodes h)"
      and res: "search_hash E h source_id tn qos retain stored hs w = (rc, h', w')"
  shows "delivered E tn stored source_id w (hash_nodes h) (hash_nodes h') w'
       \<and> subs h' = subs h \<and> shared h' = shared h
       \<and> (\<forall>k. k \<noteq> ''#'' \<longrightarrow> find_child h' k = find_child h k)"
proof (cases "find_child h ''#''")
  case None
  then have "h' = h" and "w' = w" and "hash_nodes h = []"
    using res by (auto simp: search_hash_def hash_nodes_def)
  then show ?thesis by (simp add: delivered_refl)
next
  case (Some b)
  show ?thesis
  proof (cases "children b = []")
    case False
    then have "h' = h" and "w' = w" and "hash_nodes h = []"
      using res Some by (auto simp: search_hash_def hash_nodes_def)
    then show ?thesis by (simp add: delivered_refl)
  next
    case True
    let ?p = "subs__process E b source_id tn qos retain stored w"
    have hn: "hash_nodes h = [b]"
      using Some True by (simp add: hash_nodes_def)
    have neb: "groups_nonempty (shared b)"
      using ne hn by simp
    have h': "h' = put_child h ''#'' (fst (snd ?p))" and w': "w' = snd (snd ?p)"
      using res Some True by (auto simp: search_hash_def split: prod.splits if_splits)
    have ch: "children (fst (snd ?p)) = []"
      using subs__process_delivered [OF neb, of E tn stored source_id w qos retain] True by simp
    have hn': "hash_nodes h' = [fst (snd ?p)]"
      unfolding h' by (rule hash_nodes_put_child [OF ch])
    show ?thesis
      unfolding hn hn' w'
      using subs__process_delivered [OF neb, of E tn stored source_id w qos retain]
      by (simp add: h' put_child_def find_child_def update_conv')
  qed
qed

lemma search_branch_root:
  "(case search_branch E h key eol s tn qos retain stored hs rr of
      Inl x \<Rightarrow> subs (fst (snd x)) = subs h \<and> shared (fst (snd x)) = shared h
    | Inr x \<Rightarrow> subs (fst (snd x)) = subs h \<and> shared (fst (snd x)) = shared h)"
  by (auto simp: search_branch_def put_child_def Let_def split: prod.splits)

lemma search_hash_root:
  "subs (fst (snd (search_hash E h s tn qos retain stored hs w))) = subs h
   \<and> shared (fst (snd (search_hash E h s tn qos retain stored hs w))) = shared h"
  by (auto simp: search_hash_def put_child_def split: option.splits prod.splits)

lemma stage_root:
  assumes "(case find_child h key of
              None \<Rightarrow> Inr (hs, h, w0)
            | Some branch \<Rightarrow> search_branch E h key eol s tn qos retain stored hs (f branch)) = x"
  shows "(case x of
      Inl x \<Rightarrow> subs (fst (snd x)) = subs h \<and> shared (fst (snd x)) = shared h
    | Inr x \<Rightarrow> subs (fst (snd x)) = subs h \<and> shared (fst (snd x)) = shared h)"
proof (cases "find_child h key")
  case None
  then show ?thesis using assms by auto
next
  case (Some b)
  then show ?thesis
    using assms search_branch_root [where E = E and h = h and key = key and eol = eol and s = s
        and tn = tn and qos = qos and retain = retain and stored = stored and hs = hs
        and rr = "f b"]
    by simp
qed

lemma sub__search_root:
  "subs (fst (snd (sub__search E h ts s tn qos retain stored w))) = subs h
   \<and> shared (fst (snd (sub__search E h ts s tn qos retain stored w))) = shared h"
proof (cases ts)
  case Nil
  then show ?thesis using search_hash_root by simp
next
  case (Cons t ts')
  define s1 where "s1 =
     (case find_child h t of
        None \<Rightarrow> Inr (False, h, w)
      | Some branch \<Rightarrow>
          search_branch E h t (ts' = []) s tn qos retain stored False
            (sub__search E branch ts' s tn qos retain stored w))"
  note r1 = stage_root [OF s1_def [symmetric]]
  show ?thesis
  proof (cases s1)
    case (Inl r)
    have "sub__search E h (t # ts') s tn qos retain stored w = r"
      using Inl by (simp add: s1_def)
    then show ?thesis
      using r1 Inl Cons by simp
  next
    case (Inr x)
    obtain hs1 h1 w1 where x: "x = (hs1, h1, w1)" by (cases x)
    have h1: "subs h1 = subs h \<and> shared h1 = shared h"
      using r1 Inr x by simp
    define s2 where "s2 =
       (case find_child h1 ''+'' of
          None \<Rightarrow> Inr (hs1, h1, w1)
        | Some branch \<Rightarrow>
            search_branch E h1 ''+'' (ts' = []) s tn qos retain stored hs1
              (sub__search E branch ts' s tn qos retain stored w1))"
    note r2 = stage_root [OF s2_def [symmetric]]
    have unfold: "sub__search E h (t # ts') s tn qos retain stored w =
        (case s2 of Inl r \<Rightarrow> r
         | Inr (hs2, subhier2, w2) \<Rightarrow>
             search_hash E subhier2 s tn qos retain stored hs2 w2)"
      using Inr x by (simp add: s1_def s2_def)
    show ?thesis
    proof (cases s2)
      case (Inl r)
      then show ?thesis
        unfolding Cons unfold using r2 h1 by simp
    next
      case (Inr y)
      obtain hs2 h2 w2 where y: "y = (hs2, h2, w2)" by (cases y)
      have h2: "subs h2 = subs h \<and> shared h2 = shared h"
        using r2 Inr y h1 by simp
      show ?thesis
        unfolding Cons unfold using Inr y h2 search_hash_root [of E h2 s tn qos retain stored hs2 w2]
        by simp
    qed
  qed
qed

lemma stage_Inl:
  assumes "(case find_child h key of
              None \<Rightarrow> Inr (hs, h, w0)
            | Some branch \<Rightarrow>
                search_branch E h key eol s tn qos retain stored hs
                  (sub__search E branch ts s tn qos retain stored w0)) = Inl r"
  shows "fst r = 1"
proof (cases "find_child h key")
  case None
  then show ?thesis using assms by simp
next
  case (Some b)
  have nf0: "\<not> list_ex (failed_call E) (new_calls w0 w0)" by simp
  have "stage_ok E h (hs \<or> list_ex node_has_leaf (matched_nodes b ts) \<or> (eol \<and> node_has_leaf b)) w0
           (search_branch E h key eol s tn qos retain stored hs
              (sub__search E b ts s tn qos retain stored w0))"
    by (rule search_branch_ok [OF Some refl extends_refl nf0 sub__search_ok])
  then show ?thesis
    using assms Some by (simp add: stage_ok_def)
qed

lemma hash_nodes_find_child:
  "find_child h ''#'' = find_child h' ''#'' \<Longrightarrow> hash_nodes h = hash_nodes h'"
  by (simp add: hash_nodes_def)

lemma processed_none:
  "map shared ns' = map shared ns \<Longrightarrow> map subs ns' = map subs ns \<Longrightarrow>
   processed E tn stored s w ns 0 ns' w"
  by (simp add: processed_def)

lemma processed_append_full:
  assumes d1: "processed E tn stored s w ns1 (length ns1) ns1' w1"
      and d2: "processed E tn stored s w1 ns2 k ns2' w2"
  shows "processed E tn stored s w (ns1 @ ns2) (length ns1 + k) (ns1' @ ns2') w2"
proof -
  have e1: "extends w w1" and e2: "extends w1 w2"
    using d1 d2 by (simp_all add: processed_def)
  have c: "node_checks w1 s = node_checks w s"
    by (rule ext) (rule node_checks_extends [OF e1])
  have k: "node_sinks E tn stored w1 s = node_sinks E tn stored w s"
    by (rule ext) (rule node_sinks_extends [OF e1])
  show ?thesis
    using d1 d2 extends_trans [OF e1 e2]
    unfolding processed_def new_calls_trans [OF e1 e2] c k by simp
qed

lemma processed_append_stop:
  assumes d1: "processed E tn stored s w ns1 k ns1' w1"
      and sh: "map shared ns2' = map shared ns2" and sb: "map subs ns2' = map subs ns2"
  shows "processed E tn stored s w (ns1 @ ns2) k (ns1' @ ns2') w1"
  using d1 sh sb unfolding processed_def by simp

lemma processed_nodes_cong:
  assumes "processed E tn stored s w ns k ns' w'"
      and sh: "map shared ms = map shared ns" and sb: "map subs ms = map subs ns"
  shows "processed E tn stored s w ms k ns' w'"
proof -
  have len: "length ms = length ns"
    using sh by (metis length_map)
  have sht: "map shared (take k ms) = map shared (take k ns)"
   and sbt: "map subs (take k ms) = map subs (take k ns)"
   and shd: "map shared (drop k ms) = map shared (drop k ns)"
    using sh sb by (simp_all only: take_map [symmetric] drop_map [symmetric])
  have c: "map (node_checks w s) (take k ms) = map (node_checks w s) (take k ns)"
    by (rule map_shared_subs_cong [OF _ sht sbt]) (simp add: node_checks_def split: option.splits)
  have q: "map (node_sinks E tn stored w s) (take k ms) = map (node_sinks E tn stored w s) (take k ns)"
    by (rule map_shared_subs_cong [OF _ sht sbt]) (simp add: node_sinks_def split: option.splits)
  have r: "map (\<lambda>n. map rotate_group (shared n)) (take k ms)
             = map (\<lambda>n. map rotate_group (shared n)) (take k ns)"
    by (rule map_shared_subs_cong [OF _ sht sbt]) simp
  show ?thesis
    using assms(1) sb len unfolding processed_def c q r shd by simp
qed

lemma no_attempts_no_failure:
  "acl_checked evs = [] \<Longrightarrow> sink_targets evs = [] \<Longrightarrow> \<not> list_ex (failed_call E) evs"
proof (induction evs)
  case Nil
  show ?case by simp
next
  case (Cons e evs)
  then show ?case by (cases e) simp_all
qed

lemma processed_zero_no_failure:
  "processed E tn stored s w ns 0 ns' w' \<Longrightarrow> \<not> list_ex (failed_call E) (new_calls w w')"
  by (rule no_attempts_no_failure) (simp_all add: processed_def)

lemma subs__process_processed:
  assumes ne: "groups_nonempty (shared n)"
  shows "processed E tn stored source_id w [n] 1
           [fst (snd (subs__process E n source_id tn qos retain stored w))]
           (snd (snd (subs__process E n source_id tn qos retain stored w)))
       \<and> children (fst (snd (subs__process E n source_id tn qos retain stored w))) = children n"
  using subs__process_delivered [OF ne, of E tn stored source_id w qos retain]
  by (simp add: processed_def delivered_def)

lemma search_hash_processed:
  assumes ne: "list_all (\<lambda>n. groups_nonempty (shared n)) (hash_nodes h)"
      and res: "search_hash E h source_id tn qos retain stored hs w = (rc, h', w')"
  shows "processed E tn stored source_id w (hash_nodes h) (length (hash_nodes h)) (hash_nodes h') w'
       \<and> (\<forall>k. k \<noteq> ''#'' \<longrightarrow> find_child h' k = find_child h k)"
  using search_hash_delivered [OF ne res] by (simp add: processed_def delivered_def)

lemma search_branch_processed:
  assumes del: "processed E tn stored s w0 ns kb ns1 wb"
      and full: "rcb \<noteq> 1 \<Longrightarrow> kb = length ns"
      and rcs: "rcb = MOSQ_ERR_SUCCESS \<or> rcb = MOSQ_ERR_NO_SUBSCRIBERS \<or> rcb = 1"
      and rt: "subs b1 = subs b" "shared b1 = shared b"
      and ne: "eol \<Longrightarrow> groups_nonempty (shared b)"
      and res: "search_branch E h key eol s tn qos retain stored hs (rcb, b1, wb) = x"
  shows "\<exists>b2 k w'. children b2 = children b1
          \<and> processed E tn stored s w0 (ns @ (if eol then [b] else [])) k
                (ns1 @ (if eol then [b2] else [])) w'
          \<and> (case x of
                Inl (rc, h', w1) \<Rightarrow> h' = put_child h key b2 \<and> w1 = w'
              | Inr (hs', h', w1) \<Rightarrow> h' = put_child h key b2 \<and> w1 = w'
                    \<and> k = length (ns @ (if eol then [b] else [])))"
proof (cases "rcb = 1")
  case True
  have x: "x = Inl (rcb, put_child h key b1, wb)"
    using res True by (simp add: search_branch_def mosq_err_defs)
  have "processed E tn stored s w0 (ns @ (if eol then [b] else [])) kb
          (ns1 @ (if eol then [b1] else [])) wb"
    by (rule processed_append_stop [OF del]) (simp_all add: rt)
  then show ?thesis
    unfolding x by (intro exI [of _ b1] exI [of _ kb] exI [of _ wb]) simp
next
  case False
  have kb: "kb = length ns" by (rule full [OF False])
  have rc: "rcb = MOSQ_ERR_SUCCESS \<or> rcb = MOSQ_ERR_NO_SUBSCRIBERS"
    using rcs False by simp
  show ?thesis
  proof (cases eol)
    case False
    have x: "x = Inr (hs \<or> rcb = MOSQ_ERR_SUCCESS, put_child h key b1, wb)"
      using res rc False by (auto simp: search_branch_def Let_def mosq_err_defs)
    show ?thesis
      unfolding x using del kb False
      by (intro exI [of _ b1] exI [of _ kb] exI [of _ wb]) simp
  next
    case True
    let ?p = "subs__process E b1 s tn qos retain stored wb"
    have neb1: "groups_nonempty (shared b1)"
      using ne True rt by simp
    note pd = subs__process_processed [OF neb1, of E tn stored s wb qos retain]
    have d0: "processed E tn stored s wb [b1] 1 [fst (snd ?p)] (snd (snd ?p))"
      using pd by simp
    have d1: "processed E tn stored s wb [b] 1 [fst (snd ?p)] (snd (snd ?p))"
      by (rule processed_nodes_cong [OF d0]) (simp_all add: rt)
    have d: "processed E tn stored s w0 (ns @ [b]) (length ns + 1) (ns1 @ [fst (snd ?p)]) (snd (snd ?p))"
      by (rule processed_append_full [OF del [unfolded kb] d1])
    have x: "(case x of
                Inl (rc, h', w1) \<Rightarrow> h' = put_child h key (fst (snd ?p)) \<and> w1 = snd (snd ?p)
              | Inr (hs', h', w1) \<Rightarrow> h' = put_child h key (fst (snd ?p)) \<and> w1 = snd (snd ?p))"
      using res rc True
      by (auto simp: search_branch_def Let_def mosq_err_defs split: prod.splits)
    show ?thesis
      using d pd x True
      by (intro exI [of _ "fst (snd ?p)"] exI [of _ "length ns + 1"] exI [of _ "snd (snd ?p)"])
         (cases x, auto)
  qed
qed

lemma stage_processed:
  assumes IH: "\<And>b w0. list_all (\<lambda>n. groups_nonempty (shared n)) (matched_nodes b ts) \<Longrightarrow>
                 \<exists>k. processed E tn stored s w0 (matched_nodes b ts) k
                       (matched_nodes (fst (snd (sub__search E b ts s tn qos retain stored w0))) ts)
                       (snd (snd (sub__search E b ts s tn qos retain stored w0)))
                     \<and> (fst (sub__search E b ts s tn qos retain stored w0) \<noteq> 1 \<longrightarrow>
                          k = length (matched_nodes b ts))"
      and ne: "list_all (\<lambda>n. groups_nonempty (shared n))
                 (branch_nodes (\<lambda>b. matched_nodes b ts) (ts = []) (find_child h key))"
      and st: "(case find_child h key of
                  None \<Rightarrow> Inr (hs, h, w0)
                | Some branch \<Rightarrow>
                    search_branch E h key (ts = []) s tn qos retain stored hs
                      (sub__search E branch ts s tn qos retain stored w0)) = x"
  shows "\<exists>k h' w'.
           processed E tn stored s w0
             (branch_nodes (\<lambda>b. matched_nodes b ts) (ts = []) (find_child h key)) k
             (branch_nodes (\<lambda>b. matched_nodes b ts) (ts = []) (find_child h' key)) w'
         \<and> (\<forall>k. k \<noteq> key \<longrightarrow> find_child h' k = find_child h k)
         \<and> (case x of
              Inl (rc, h1, w1) \<Rightarrow> h1 = h' \<and> w1 = w'
            | Inr (hs', h1, w1) \<Rightarrow> h1 = h' \<and> w1 = w'
                \<and> k = length (branch_nodes (\<lambda>b. matched_nodes b ts) (ts = []) (find_child h key)))"
proof (cases "find_child h key")
  case None
  then have x: "x = Inr (hs, h, w0)"
    using st by simp
  show ?thesis
    unfolding x using None
    by (intro exI [of _ 0] exI [of _ h] exI [of _ w0]) (simp add: branch_nodes_def processed_none)
next
  case (Some b)
  let ?r = "sub__search E b ts s tn qos retain stored w0"
  obtain rcb b1 wb where r: "?r = (rcb, b1, wb)" by (cases ?r)
  have sb: "search_branch E h key (ts = []) s tn qos retain stored hs (rcb, b1, wb) = x"
    using st Some r by simp
  have neb: "list_all (\<lambda>n. groups_nonempty (shared n)) (matched_nodes b ts)"
    using ne Some by (simp add: branch_nodes_def)
  have nee: "ts = [] \<Longrightarrow> groups_nonempty (shared b)"
    using ne Some by (simp add: branch_nodes_def)
  obtain kb where del: "processed E tn stored s w0 (matched_nodes b ts) kb (matched_nodes b1 ts) wb"
    and full: "rcb \<noteq> 1 \<Longrightarrow> kb = length (matched_nodes b ts)"
    using IH [OF neb, of w0] r by auto
  have rcs: "rcb = MOSQ_ERR_SUCCESS \<or> rcb = MOSQ_ERR_NO_SUBSCRIBERS \<or> rcb = 1"
    using sub__search_ok [of E b ts w0 s tn qos retain stored] r
    by (simp add: ok_res_def split: if_splits)
  have rt: "subs b1 = subs b" "shared b1 = shared b"
    using sub__search_root [of E b ts s tn qos retain stored w0] r by simp_all
  obtain b2 k w' where ch: "children b2 = children b1"
    and d: "processed E tn stored s w0 (matched_nodes b ts @ (if ts = [] then [b] else [])) k
                (matched_nodes b1 ts @ (if ts = [] then [b2] else [])) w'"
    and x: "(case x of
                Inl (rc, h', w1) \<Rightarrow> h' = put_child h key b2 \<and> w1 = w'
              | Inr (hs', h', w1) \<Rightarrow> h' = put_child h key b2 \<and> w1 = w'
                    \<and> k = length (matched_nodes b ts @ (if ts = [] then [b] else [])))"
    using search_branch_processed [OF del full rcs rt nee sb] by blast
  have m: "matched_nodes b2 ts = matched_nodes b1 ts"
    by (rule matched_nodes_children [OF ch])
  have bn: "branch_nodes (\<lambda>b. matched_nodes b ts) (ts = []) (find_child h key)
              = matched_nodes b ts @ (if ts = [] then [b] else [])"
    using Some by (simp add: branch_nodes_def)
  have bn': "branch_nodes (\<lambda>b. matched_nodes b ts) (ts = []) (find_child (put_child h key b2) key)
              = matched_nodes b1 ts @ (if ts = [] then [b2] else [])"
    by (simp add: branch_nodes_def find_child_put_child m)
  have fr: "\<forall>k. k \<noteq> key \<longrightarrow> find_child (put_child h key b2) k = find_child h k"
    by (simp add: find_child_put_child)
  show ?thesis
    apply (rule exI [of _ k], rule exI [of _ "put_child h key b2"], rule exI [of _ w'])
    unfolding bn bn'
    using d fr x by (cases x) auto
qed

lemma sub__search_processed:
  "list_all (\<lambda>n. groups_nonempty (shared n)) (matched_nodes h ts) \<Longrightarrow>
   ''+'' \<notin> set ts \<Longrightarrow> ''#'' \<notin> set ts \<Longrightarrow>
   \<exists>k. processed E tn stored s w (matched_nodes h ts) k
         (matched_nodes (fst (snd (sub__search E h ts s tn qos retain stored w))) ts)
         (snd (snd (sub__search E h ts s tn qos retain stored w)))
       \<and> (fst (sub__search E h ts s tn qos retain stored w) \<noteq> 1 \<longrightarrow> k = length (matched_nodes h ts))"
proof (induction ts arbitrary: h w)
  case Nil
  let ?r = "search_hash E h s tn qos retain stored False w"
  have res: "?r = (fst ?r, fst (snd ?r), snd (snd ?r))" by simp
  have ne: "list_all (\<lambda>n. groups_nonempty (shared n)) (hash_nodes h)"
    using Nil.prems(1) by simp
  show ?case
    using search_hash_processed [OF ne res] by auto
next
  case (Cons t ts)
  let ?below = "\<lambda>b. matched_nodes b ts"
  let ?eol = "ts = []"
  let ?B = "\<lambda>h k. branch_nodes ?below ?eol (find_child h k)"
  have t: "t \<noteq> ''+''" "t \<noteq> ''#''" and ts: "''+'' \<notin> set ts" "''#'' \<notin> set ts"
    using Cons.prems(2,3) by auto
  have ne1: "list_all (\<lambda>n. groups_nonempty (shared n)) (?B h t)"
   and ne2: "list_all (\<lambda>n. groups_nonempty (shared n)) (?B h ''+'')"
   and ne3: "list_all (\<lambda>n. groups_nonempty (shared n)) (hash_nodes h)"
    using Cons.prems(1) by simp_all
  have IH: "\<exists>k. processed E tn stored s w0 (matched_nodes b ts) k
                  (matched_nodes (fst (snd (sub__search E b ts s tn qos retain stored w0))) ts)
                  (snd (snd (sub__search E b ts s tn qos retain stored w0)))
                \<and> (fst (sub__search E b ts s tn qos retain stored w0) \<noteq> 1 \<longrightarrow>
                     k = length (matched_nodes b ts))"
    if "list_all (\<lambda>n. groups_nonempty (shared n)) (matched_nodes b ts)" for b w0
    by (rule Cons.IH [OF that ts])
  have mn: "matched_nodes g (t # ts) = ?B g t @ ?B g ''+'' @ hash_nodes g" for g
    by simp
  define s1 where "s1 =
     (case find_child h t of
        None \<Rightarrow> Inr (False, h, w)
      | Some branch \<Rightarrow>
          search_branch E h t (ts = []) s tn qos retain stored False
            (sub__search E branch ts s tn qos retain stored w))"
  obtain k1 h1 w1 where d1: "processed E tn stored s w (?B h t) k1 (?B h1 t) w1"
    and f1: "\<forall>k. k \<noteq> t \<longrightarrow> find_child h1 k = find_child h k"
    and x1: "(case s1 of
                Inl (rc, g, v) \<Rightarrow> g = h1 \<and> v = w1
              | Inr (hs', g, v) \<Rightarrow> g = h1 \<and> v = w1 \<and> k1 = length (?B h t))"
    using stage_processed [OF IH ne1 s1_def [symmetric]] by blast
  have fp: "find_child h1 ''+'' = find_child h ''+''"
    using f1 t by auto
  have fh1: "find_child h1 ''#'' = find_child h ''#''"
    using f1 t by auto
  show ?case
  proof (cases s1)
    case (Inl r)
    have res: "sub__search E h (t # ts) s tn qos retain stored w = r"
      using Inl by (simp add: s1_def)
    have rc: "fst r = 1"
      by (rule stage_Inl [OF Inl [unfolded s1_def]])
    have r: "fst (snd r) = h1" "snd (snd r) = w1"
      using x1 Inl by (auto split: prod.splits)
    have "processed E tn stored s w (?B h t @ (?B h ''+'' @ hash_nodes h)) k1
            (?B h1 t @ (?B h1 ''+'' @ hash_nodes h1)) w1"
      by (rule processed_append_stop [OF d1])
         (simp_all add: fp hash_nodes_find_child [OF fh1])
    then show ?thesis
      unfolding res mn r using rc by blast
  next
    case (Inr y)
    obtain hs1 where s1: "s1 = Inr (hs1, h1, w1)" and k1: "k1 = length (?B h t)"
      using x1 Inr by (cases y) auto
    define s2 where "s2 =
       (case find_child h1 ''+'' of
          None \<Rightarrow> Inr (hs1, h1, w1)
        | Some branch \<Rightarrow>
            search_branch E h1 ''+'' (ts = []) s tn qos retain stored hs1
              (sub__search E branch ts s tn qos retain stored w1))"
    have unfold: "sub__search E h (t # ts) s tn qos retain stored w =
        (case s2 of Inl r \<Rightarrow> r
         | Inr (hs2, subhier2, w2) \<Rightarrow>
             search_hash E subhier2 s tn qos retain stored hs2 w2)"
      using s1 by (simp add: s1_def s2_def)
    have ne2': "list_all (\<lambda>n. groups_nonempty (shared n)) (?B h1 ''+'')"
      using ne2 fp by simp
    obtain k2 h2 w2 where d2: "processed E tn stored s w1 (?B h1 ''+'') k2 (?B h2 ''+'') w2"
      and f2: "\<forall>k. k \<noteq> ''+'' \<longrightarrow> find_child h2 k = find_child h1 k"
      and x2: "(case s2 of
                  Inl (rc, g, v) \<Rightarrow> g = h2 \<and> v = w2
                | Inr (hs', g, v) \<Rightarrow> g = h2 \<and> v = w2 \<and> k2 = length (?B h1 ''+''))"
      using stage_processed [OF IH ne2' s2_def [symmetric]] by blast
    have ft2: "find_child h2 t = find_child h1 t"
      using f2 t by auto
    have fh2: "find_child h2 ''#'' = find_child h ''#''"
      using f2 fh1 by auto
    show ?thesis
    proof (cases s2)
      case (Inl r)
      have res: "sub__search E h (t # ts) s tn qos retain stored w = r"
        unfolding unfold Inl by simp
      have rc: "fst r = 1"
        by (rule stage_Inl [OF Inl [unfolded s2_def]])
      have r: "fst (snd r) = h2" "snd (snd r) = w2"
        using x2 Inl by (auto split: prod.splits)
      have d2': "processed E tn stored s w1 (?B h1 ''+'' @ hash_nodes h) k2
                   (?B h2 ''+'' @ hash_nodes h2) w2"
        by (rule processed_append_stop [OF d2]) (simp_all add: hash_nodes_find_child [OF fh2])
      have "processed E tn stored s w (?B h t @ (?B h1 ''+'' @ hash_nodes h)) (length (?B h t) + k2)
              (?B h1 t @ (?B h2 ''+'' @ hash_nodes h2)) w2"
        by (rule processed_append_full [OF d1 [unfolded k1] d2'])
      then have "processed E tn stored s w (?B h t @ (?B h ''+'' @ hash_nodes h)) (length (?B h t) + k2)
              (?B h2 t @ (?B h2 ''+'' @ hash_nodes h2)) w2"
        by (simp only: fp ft2)
      then show ?thesis
        unfolding res mn r using rc by blast
    next
      case (Inr z)
      obtain hs2 where s2: "s2 = Inr (hs2, h2, w2)" and k2: "k2 = length (?B h1 ''+'')"
        using x2 Inr by (cases z) auto
      let ?r = "search_hash E h2 s tn qos retain stored hs2 w2"
      have res: "sub__search E h (t # ts) s tn qos retain stored w = ?r"
        unfolding unfold s2 by simp
      have r3: "?r = (fst ?r, fst (snd ?r), snd (snd ?r))" by simp
      have hn: "hash_nodes h2 = hash_nodes h"
        by (rule hash_nodes_find_child [OF fh2])
      have ne3': "list_all (\<lambda>n. groups_nonempty (shared n)) (hash_nodes h2)"
        using ne3 hn by simp
      have d3: "processed E tn stored s w2 (hash_nodes h2) (length (hash_nodes h2))
                  (hash_nodes (fst (snd ?r))) (snd (snd ?r))"
       and f3: "\<forall>k. k \<noteq> ''#'' \<longrightarrow> find_child (fst (snd ?r)) k = find_child h2 k"
        using search_hash_processed [OF ne3' r3] by simp_all
      have ft: "find_child (fst (snd ?r)) t = find_child h1 t"
        using f3 f2 t by auto
      have fpl: "find_child (fst (snd ?r)) ''+'' = find_child h2 ''+''"
        using f3 by auto
      have "processed E tn stored s w
              (?B h t @ (?B h1 ''+'' @ hash_nodes h2))
              (length (?B h t) + (length (?B h1 ''+'') + length (hash_nodes h2)))
              (?B h1 t @ (?B h2 ''+'' @ hash_nodes (fst (snd ?r))))
              (snd (snd ?r))"
        by (rule processed_append_full [OF d1 [unfolded k1]
                   processed_append_full [OF d2 [unfolded k2] d3]])
      then have "processed E tn stored s w (matched_nodes h (t # ts))
              (length (matched_nodes h (t # ts)))
              (matched_nodes (fst (snd ?r)) (t # ts)) (snd (snd ?r))"
        by (simp add: fp hn ft fpl)
      then show ?thesis
        unfolding res by blast
    qed
  qed
qed

lemma find_child_hier_groups_nonempty:
  assumes "hier_groups_nonempty h" and "find_child h k = Some b"
  shows "hier_groups_nonempty b"
proof -
  have "(k, b) \<in> set (children h)"
    using assms(2) by (auto simp: find_child_def dest: map_of_SomeD)
  then show ?thesis
    using assms(1) by (cases h) (auto simp: list_all_iff)
qed

lemma hier_groups_nonempty_shared:
  "hier_groups_nonempty h \<Longrightarrow> groups_nonempty (shared h)"
  by (cases h) simp

lemma matched_nodes_groups_nonempty:
  "hier_groups_nonempty h \<Longrightarrow>
   list_all (\<lambda>n. groups_nonempty (shared n)) (matched_nodes h ts)"
proof (induction ts arbitrary: h)
  case Nil
  show ?case
    using find_child_hier_groups_nonempty [OF Nil, of "''#''"]
    by (auto simp: hash_nodes_def hier_groups_nonempty_shared split: option.splits)
next
  case (Cons t ts)
  have br: "list_all (\<lambda>n. groups_nonempty (shared n))
              (branch_nodes (\<lambda>b. matched_nodes b ts) (ts = []) (find_child h k))" for k
  proof (cases "find_child h k")
    case None
    then show ?thesis by (simp add: branch_nodes_def)
  next
    case (Some b)
    have "hier_groups_nonempty b"
      by (rule find_child_hier_groups_nonempty [OF Cons.prems Some])
    then show ?thesis
      using Some Cons.IH [of b] by (simp add: branch_nodes_def hier_groups_nonempty_shared)
  qed
  have hn: "list_all (\<lambda>n. groups_nonempty (shared n)) (hash_nodes h)"
    using find_child_hier_groups_nonempty [OF Cons.prems, of "''#''"]
    by (auto simp: hash_nodes_def hier_groups_nonempty_shared split: option.splits)
  show ?case
    using br [of t] br [of "''+''"] hn by simp
qed

lemma sub__messages_queue_run:
  assumes tok: "sub__topic_tokenise tn = Inr (t # ts, sn)"
      and root: "map_of db t = Some h"
      and run: "sub__messages_queue E s tn qos retain stored db w = (rc, db', w')"
  shows "db' = AList.update t
                 (fst (snd (sub__search E h (t # ts) s tn qos retain stored
                              (log_call (MsgStoreRefInc stored) w)))) db
       \<and> (\<exists>tail. trace w' = trace (snd (snd (sub__search E h (t # ts) s tn qos retain stored
                                  (log_call (MsgStoreRefInc stored) w)))) @ tail
                \<and> acl_checked tail = [] \<and> sink_targets tail = []
                \<and> \<not> list_ex (failed_call E) tail)
       \<and> (\<forall>c. ctx_id (contexts w' c) =
               ctx_id (contexts (snd (snd (sub__search E h (t # ts) s tn qos retain stored
                                  (log_call (MsgStoreRefInc stored) w)))) c))"
proof -
  let ?w0 = "log_call (MsgStoreRefInc stored) w"
  let ?r = "sub__search E h (t # ts) s tn qos retain stored ?w0"
  obtain rc1 h1 w1 where r: "?r = (rc1, h1, w1)" by (cases ?r)
  show ?thesis
  proof (cases "retain \<noteq> 0")
    case True
    have "db' = AList.update t h1 db"
      and "w' = log_call (MsgStoreRefDec stored) (log_call (RetainStore tn stored (t # ts)) w1)"
      using run tok root r True
      by (simp_all add: sub__messages_queue_def Let_def del: sub__search.simps)
    then show ?thesis
      unfolding r by (simp add: log_call_def)
  next
    case False
    have "db' = AList.update t h1 db" and "w' = log_call (MsgStoreRefDec stored) w1"
      using run tok root r False
      by (simp_all add: sub__messages_queue_def Let_def del: sub__search.simps)
    then show ?thesis
      unfolding r by (simp add: log_call_def)
  qed
qed

lemma sub__messages_queue_processed:
  assumes tok: "sub__topic_tokenise tn = Inr (t # ts, sn)"
      and lit: "''+'' \<notin> set (t # ts)" "''#'' \<notin> set (t # ts)"
      and root: "map_of db t = Some h"
      and ne: "list_all (\<lambda>n. groups_nonempty (shared n)) (matched_nodes h (t # ts))"
      and run: "sub__messages_queue E s tn qos retain stored db w = (rc, db', w')"
  shows "\<exists>k h'. map_of db' t = Some h'
            \<and> processed E tn stored s w (matched_nodes h (t # ts)) k (matched_nodes h' (t # ts)) w'
            \<and> (matched_nodes h (t # ts) \<noteq> [] \<longrightarrow> 0 < k)
            \<and> (\<not> list_ex (failed_call E) (new_calls w w') \<longrightarrow> k = length (matched_nodes h (t # ts)))"
proof -
  let ?w0 = "log_call (MsgStoreRefInc stored) w"
  let ?r = "sub__search E h (t # ts) s tn qos retain stored ?w0"
  let ?h1 = "fst (snd ?r)" and ?w1 = "snd (snd ?r)"
  define ns where "ns = matched_nodes h (t # ts)"
  obtain tail where db': "db' = AList.update t ?h1 db"
    and tr: "trace w' = trace ?w1 @ tail"
    and tail: "acl_checked tail = []" "sink_targets tail = []"
    and ids: "\<And>c. ctx_id (contexts w' c) = ctx_id (contexts ?w1 c)"
    using sub__messages_queue_run [OF tok root run] by blast
  have okr: "ok_res E h (list_ex node_has_leaf (matched_nodes h (t # ts))) ?w0 ?r"
    by (rule sub__search_ok)
  have e01: "extends ?w0 ?w1"
    using okr by (simp add: ok_res_def)
  have e0: "extends w ?w0"
    by (rule extendsI [where evs = "[MsgStoreRefInc stored]"]) (simp_all add: log_call_def)
  have e1': "extends ?w1 w'"
    by (rule extendsI [OF tr]) (rule ids)
  have nc: "new_calls w w' = MsgStoreRefInc stored # new_calls ?w0 ?w1 @ tail"
    using new_calls_trans [OF extends_trans [OF e0 e01] e1'] new_calls_trans [OF e0 e01]
      new_callsI [OF tr] new_callsI [of ?w0 w "[MsgStoreRefInc stored]"]
    by (simp add: log_call_def)
  obtain k where d: "processed E tn stored s ?w0 ns k (matched_nodes ?h1 (t # ts)) ?w1"
    and full: "fst ?r \<noteq> 1 \<Longrightarrow> k = length ns"
    using sub__search_processed [OF ne lit, of E tn stored s ?w0 qos retain] unfolding ns_def by blast
  have rc1: "fst ?r \<noteq> 1" if "\<not> list_ex (failed_call E) (new_calls ?w0 ?w1)"
    using okr that by (simp add: ok_res_def mosq_err_defs)
  have pos: "0 < k" if "ns \<noteq> []"
  proof (rule ccontr)
    assume "\<not> 0 < k"
    then have k0: "k = 0" by simp
    have "\<not> list_ex (failed_call E) (new_calls ?w0 ?w1)"
      by (rule processed_zero_no_failure [OF d [unfolded k0]])
    then have "k = length ns"
      by (rule full [OF rc1])
    then show False
      using k0 that by simp
  qed
  have all: "k = length ns" if "\<not> list_ex (failed_call E) (new_calls w w')"
  proof -
    have "\<not> list_ex (failed_call E) (new_calls ?w0 ?w1)"
      using that unfolding nc by simp
    then show ?thesis
      by (rule full [OF rc1])
  qed
  have c: "node_checks ?w0 s = node_checks w s"
    by (rule ext) (rule node_checks_extends [OF e0])
  have q: "node_sinks E tn stored ?w0 s = node_sinks E tn stored w s"
    by (rule ext) (rule node_sinks_extends [OF e0])
  have p: "processed E tn stored s w ns k (matched_nodes ?h1 (t # ts)) w'"
    using d extends_trans [OF extends_trans [OF e0 e01] e1'] tail
    unfolding processed_def nc c q by simp
  have m: "map_of db' t = Some ?h1"
    unfolding db' by (simp add: update_conv')
  show ?thesis
    using m p pos all unfolding ns_def by blast
qed

lemma sub__messages_queue_delivered:
  assumes tok: "sub__topic_tokenise tn = Inr (t # ts, sn)"
      and lit: "''+'' \<notin> set (t # ts)" "''#'' \<notin> set (t # ts)"
      and root: "map_of db t = Some h"
      and ne: "list_all (\<lambda>n. groups_nonempty (shared n)) (matched_nodes h (t # ts))"
      and run: "sub__messages_queue E s tn qos retain stored db w = (rc, db', w')"
      and ok: "\<not> list_ex (failed_call E) (new_calls w w')"
  shows "\<exists>h'. map_of db' t = Some h'
            \<and> delivered E tn stored s w (matched_nodes h (t # ts)) (matched_nodes h' (t # ts)) w'"
proof -
  define ns where "ns = matched_nodes h (t # ts)"
  obtain k h' where h': "map_of db' t = Some h'"
    and p: "processed E tn stored s w ns k (matched_nodes h' (t # ts)) w'"
    and k: "k = length ns"
    using sub__messages_queue_processed [OF tok lit root ne run] ok unfolding ns_def by blast
  have "delivered E tn stored s w ns (matched_nodes h' (t # ts)) w'"
    using p unfolding k processed_def delivered_def by simp
  then show ?thesis
    using h' unfolding ns_def by blast
qed

lemma groups_nonempty_rotate: "groups_nonempty gs \<Longrightarrow> groups_nonempty (map rotate_group gs)"
  by (auto simp: groups_nonempty_def list_all_iff rotate_group_def split: list.splits)

lemma processed_groups_nonempty:
  assumes "list_all (\<lambda>n. groups_nonempty (shared n)) ns"
      and "map shared ns' = map (\<lambda>n. map rotate_group (shared n)) (take k ns) @ map shared (drop k ns)"
  shows "list_all (\<lambda>n. groups_nonempty (shared n)) ns'"
proof -
  have a: "list_all groups_nonempty (map (\<lambda>n. map rotate_group (shared n)) ms)"
    if "list_all (\<lambda>n. groups_nonempty (shared n)) ms" for ms
    using that by (induction ms) (simp_all add: groups_nonempty_rotate)
  have b: "list_all groups_nonempty (map shared ms)"
    if "list_all (\<lambda>n. groups_nonempty (shared n)) ms" for ms
    using that by (induction ms) simp_all
  have t: "list_all (\<lambda>n. groups_nonempty (shared n)) (take k ns)"
   and d: "list_all (\<lambda>n. groups_nonempty (shared n)) (drop k ns)"
    using assms(1) by (auto simp: list_all_iff dest: in_set_takeD in_set_dropD)
  have "list_all groups_nonempty (map shared ns')"
    unfolding assms(2) using a [OF t] b [OF d] by simp
  then show ?thesis
    by (induction ns') simp_all
qed

lemmas pub_defs = sub__messages_queue_def eval_defs hash_nodes_def branch_nodes_def

text \<open>
  C1, as stated, fails: a node that the publish matches and that holds a shared group is
  not processed at all when a delivery attempt fails at a node matched before it. Here the
  queue fails for the leaf at \<^verbatim>\<open>x/a\<close>; the node \<^verbatim>\<open>x/+\<close> is matched too, but the ACL is asked
  about no member of its group and the group is not rotated.
\<close>

theorem sub__messages_queue_shared_rotation_counterexample:
  "sub__topic_tokenise ''x/a'' = Inr ([''x'', ''a''], None)
   \<and> map_of ex_fail_db ''x''
       = Some (ex_tree [ex_node ''a'' [ex_leaf 1 0],
                 (''+'', Subhier ''+'' [] [ex_leaf 2 0] [(''g'', [ex_leaf 2 0, ex_leaf 1 0])])])
   \<and> matched_nodes
        (ex_tree [ex_node ''a'' [ex_leaf 1 0],
                 (''+'', Subhier ''+'' [] [ex_leaf 2 0] [(''g'', [ex_leaf 2 0, ex_leaf 1 0])])])
        [''x'', ''a'']
       = [Subhier ''a'' [] [ex_leaf 1 0] [],
          Subhier ''+'' [] [ex_leaf 2 0] [(''g'', [ex_leaf 2 0, ex_leaf 1 0])]]
   \<and> fst (sub__messages_queue (ex_env {} {1}) (Some ''c9'') ''x/a'' 0 0 ex_msg ex_fail_db ex_world) = 1
   \<and> acl_checked (new_calls ex_world (snd (snd
        (sub__messages_queue (ex_env {} {1}) (Some ''c9'') ''x/a'' 0 0 ex_msg ex_fail_db ex_world))))
       = [1]
   \<and> fst (snd (sub__messages_queue (ex_env {} {1}) (Some ''c9'') ''x/a'' 0 0 ex_msg ex_fail_db
                  ex_world)) = ex_fail_db"
proof -
  have tok: "sub__topic_tokenise ''x/a'' = Inr ([''x'', ''a''], None)"
    by (simp add: tok_defs)
  show ?thesis
    using tok by (simp add: pub_defs ex_fail_db_def)
qed

text \<open>
  C1, amended: for a publish whose topic has no wildcard level, on a trie without an empty
  shared group: the publish processes the first \<open>k\<close> of the matched nodes, in the order of
  the matcher: at least one when a node is matched, and all of them when no delivery
  attempt fails (no ACL error, no failed enqueue). The ACL checks and the queue calls of
  the publish are, processed node by processed node, those of \<open>node_checks\<close> and
  \<open>node_sinks\<close> (for each shared group its head, and no other member); in the trie the
  publish returns, every shared group of every processed node is rotated by one, whatever
  the ACL or the queue answered, the groups of the matched nodes that were not processed
  are as before, and so are the normal leaves; a second publish of the topic does the
  same on the trie the first one left. For a single matched node that holds one group of
  two members and no normal leaf, the two publishes ask the ACL about the first member,
  then about the second, and each is queued for when the ACL allows it.
\<close>

theorem sub__messages_queue_shared_rotation:
  assumes tok: "sub__topic_tokenise tn = Inr (t # ts, sn)"
      and lit: "''+'' \<notin> set (t # ts) \<and> ''#'' \<notin> set (t # ts)"
      and root: "map_of db t = Some h"
      and ne: "hier_groups_nonempty h"
      and run1: "sub__messages_queue E source_id tn qos retain stored db w = (rc, db', w')"
      and run2: "sub__messages_queue E source_id2 tn qos2 retain2 stored2 db' w' = (rc2, db'', w'')"
  shows "(\<exists>k h' k'.
            k \<le> length (matched_nodes h (t # ts))
          \<and> (matched_nodes h (t # ts) \<noteq> [] \<longrightarrow> 0 < k)
          \<and> (\<not> list_ex (failed_call E) (new_calls w w') \<longrightarrow> k = length (matched_nodes h (t # ts)))
          \<and> acl_checked (new_calls w w')
              = concat (map (node_checks w source_id) (take k (matched_nodes h (t # ts))))
          \<and> sink_targets (new_calls w w')
              = concat (map (node_sinks E tn stored w source_id) (take k (matched_nodes h (t # ts))))
          \<and> map_of db' t = Some h'
          \<and> map shared (matched_nodes h' (t # ts))
              = map (\<lambda>n. map rotate_group (shared n)) (take k (matched_nodes h (t # ts)))
                @ map shared (drop k (matched_nodes h (t # ts)))
          \<and> map subs (matched_nodes h' (t # ts)) = map subs (matched_nodes h (t # ts))
          \<and> k' \<le> length (matched_nodes h' (t # ts))
          \<and> (matched_nodes h' (t # ts) \<noteq> [] \<longrightarrow> 0 < k')
          \<and> (\<not> list_ex (failed_call E) (new_calls w' w'') \<longrightarrow> k' = length (matched_nodes h' (t # ts)))
          \<and> acl_checked (new_calls w' w'')
              = concat (map (node_checks w source_id2) (take k' (matched_nodes h' (t # ts))))
          \<and> sink_targets (new_calls w' w'')
              = concat (map (node_sinks E tn stored2 w source_id2) (take k' (matched_nodes h' (t # ts)))))
       \<and> (\<forall>n name a b. matched_nodes h (t # ts) = [n] \<and> shared n = [(name, [a, b])]
                        \<and> subs n = [] \<longrightarrow>
            acl_checked (new_calls w w') = [leaf_context a]
            \<and> sink_targets (new_calls w w')
                = (if acl_allows E tn stored a then [leaf_context a] else [])
            \<and> acl_checked (new_calls w' w'') = [leaf_context b]
            \<and> sink_targets (new_calls w' w'')
                = (if acl_allows E tn stored2 b then [leaf_context b] else []))"
proof -
  define ns where "ns = matched_nodes h (t # ts)"
  have ne1: "list_all (\<lambda>n. groups_nonempty (shared n)) ns"
    unfolding ns_def by (rule matched_nodes_groups_nonempty [OF ne])
  obtain k h' where h': "map_of db' t = Some h'"
    and d1: "processed E tn stored source_id w ns k (matched_nodes h' (t # ts)) w'"
    and pos1: "ns \<noteq> [] \<longrightarrow> 0 < k"
    and all1: "\<not> list_ex (failed_call E) (new_calls w w') \<longrightarrow> k = length ns"
    using sub__messages_queue_processed [OF tok conjunct1 [OF lit] conjunct2 [OF lit] root
        ne1 [unfolded ns_def] run1]
    unfolding ns_def by blast
  define ns' where "ns' = matched_nodes h' (t # ts)"
  have rot: "map shared ns' = map (\<lambda>n. map rotate_group (shared n)) (take k ns) @ map shared (drop k ns)"
   and sb: "map subs ns' = map subs ns"
   and e1: "extends w w'"
   and le1: "k \<le> length ns"
   and a1: "acl_checked (new_calls w w') = concat (map (node_checks w source_id) (take k ns))"
   and s1: "sink_targets (new_calls w w')
              = concat (map (node_sinks E tn stored w source_id) (take k ns))"
    using d1 unfolding ns'_def by (simp_all only: processed_def)
  have ne2: "list_all (\<lambda>n. groups_nonempty (shared n)) ns'"
    by (rule processed_groups_nonempty [OF ne1 rot])
  obtain k' h'' where
        d2: "processed E tn stored2 source_id2 w' ns' k' (matched_nodes h'' (t # ts)) w''"
    and pos2: "ns' \<noteq> [] \<longrightarrow> 0 < k'"
    and all2: "\<not> list_ex (failed_call E) (new_calls w' w'') \<longrightarrow> k' = length ns'"
    using sub__messages_queue_processed [OF tok conjunct1 [OF lit] conjunct2 [OF lit] h'
        ne2 [unfolded ns'_def] run2]
    unfolding ns'_def by blast
  have c: "node_checks w' source_id2 = node_checks w source_id2"
    by (rule ext) (rule node_checks_extends [OF e1])
  have q: "node_sinks E tn stored2 w' source_id2 = node_sinks E tn stored2 w source_id2"
    by (rule ext) (rule node_sinks_extends [OF e1])
  have le2: "k' \<le> length ns'"
   and a2: "acl_checked (new_calls w' w'') = concat (map (node_checks w source_id2) (take k' ns'))"
   and s2: "sink_targets (new_calls w' w'')
              = concat (map (node_sinks E tn stored2 w source_id2) (take k' ns'))"
    using d2 unfolding processed_def c q by (simp_all only:)
  have two: "acl_checked (new_calls w w') = [leaf_context a]
            \<and> sink_targets (new_calls w w')
                = (if acl_allows E tn stored a then [leaf_context a] else [])
            \<and> acl_checked (new_calls w' w'') = [leaf_context b]
            \<and> sink_targets (new_calls w' w'')
                = (if acl_allows E tn stored2 b then [leaf_context b] else [])"
    if m: "ns = [n]" and g: "shared n = [(name, [a, b])]" and nb: "subs n = []" for n name a b
  proof -
    have k1: "k = 1"
      using pos1 le1 m by simp
    obtain n' where n': "ns' = [n']"
      using rot m k1 by (cases ns') auto
    have k2: "k' = 1"
      using pos2 le2 n' by simp
    have g': "shared n' = [(name, [b, a])]" and nb': "subs n' = []"
      using rot sb m g nb k1 unfolding n' by (simp_all add: rotate_group_def)
    show ?thesis
      unfolding a1 s1 a2 s2 m n' k1 k2
      by (cases source_id; cases source_id2)
         (simp_all add: node_checks_def node_sinks_def g g' nb nb')
  qed
  have ex: "\<exists>k h' k'.
            k \<le> length ns
          \<and> (ns \<noteq> [] \<longrightarrow> 0 < k)
          \<and> (\<not> list_ex (failed_call E) (new_calls w w') \<longrightarrow> k = length ns)
          \<and> acl_checked (new_calls w w') = concat (map (node_checks w source_id) (take k ns))
          \<and> sink_targets (new_calls w w')
              = concat (map (node_sinks E tn stored w source_id) (take k ns))
          \<and> map_of db' t = Some h'
          \<and> map shared (matched_nodes h' (t # ts))
              = map (\<lambda>n. map rotate_group (shared n)) (take k ns) @ map shared (drop k ns)
          \<and> map subs (matched_nodes h' (t # ts)) = map subs ns
          \<and> k' \<le> length (matched_nodes h' (t # ts))
          \<and> (matched_nodes h' (t # ts) \<noteq> [] \<longrightarrow> 0 < k')
          \<and> (\<not> list_ex (failed_call E) (new_calls w' w'') \<longrightarrow> k' = length (matched_nodes h' (t # ts)))
          \<and> acl_checked (new_calls w' w'')
              = concat (map (node_checks w source_id2) (take k' (matched_nodes h' (t # ts))))
          \<and> sink_targets (new_calls w' w'')
              = concat (map (node_sinks E tn stored2 w source_id2) (take k' (matched_nodes h' (t # ts))))"
    apply (rule exI [of _ k], rule exI [of _ h'], rule exI [of _ k'])
    using le1 pos1 all1 a1 s1 h' rot sb le2 pos2 all2 a2 s2 unfolding ns'_def
    by (intro conjI) assumption+
  show ?thesis
    using ex two unfolding ns_def by blast
qed

theorem sub__messages_queue_shared_rotation_witness:
  "sub__topic_tokenise ''x/a'' = Inr ([''x'', ''a''], None)
   \<and> matched_nodes (ex_tree [(''a'', Subhier ''a'' [] [] [(''g'', [ex_leaf 1 1, ex_leaf 2 1])])])
        [''x'', ''a'']
       = [Subhier ''a'' [] [] [(''g'', [ex_leaf 1 1, ex_leaf 2 1])]]
   \<and> mosquitto_acl_check (ex_env {1} {}) 1 ''x/a'' ex_msg = MOSQ_ERR_ACL_DENIED
   \<and> acl_checked (new_calls ex_world (snd (snd
        (sub__messages_queue (ex_env {1} {}) (Some ''c9'') ''x/a'' 1 0 ex_msg ex_shared_db ex_world))))
       = [1]
   \<and> sink_targets (new_calls ex_world (snd (snd
        (sub__messages_queue (ex_env {1} {}) (Some ''c9'') ''x/a'' 1 0 ex_msg ex_shared_db ex_world))))
       = []
   \<and> fst (snd (sub__messages_queue (ex_env {1} {}) (Some ''c9'') ''x/a'' 1 0 ex_msg ex_shared_db
                  ex_world))
       = [(''x'', ex_tree [(''a'', Subhier ''a'' [] [] [(''g'', [ex_leaf 2 1, ex_leaf 1 1])])])]
   \<and> acl_checked (new_calls
        (snd (snd (sub__messages_queue (ex_env {1} {}) (Some ''c9'') ''x/a'' 1 0 ex_msg
                     ex_shared_db ex_world)))
        (snd (snd (sub__messages_queue (ex_env {1} {}) (Some ''c9'') ''x/a'' 1 0 ex_msg
           (fst (snd (sub__messages_queue (ex_env {1} {}) (Some ''c9'') ''x/a'' 1 0 ex_msg
                        ex_shared_db ex_world)))
           (snd (snd (sub__messages_queue (ex_env {1} {}) (Some ''c9'') ''x/a'' 1 0 ex_msg
                        ex_shared_db ex_world)))))))
       = [2]
   \<and> sink_targets (new_calls
        (snd (snd (sub__messages_queue (ex_env {1} {}) (Some ''c9'') ''x/a'' 1 0 ex_msg
                     ex_shared_db ex_world)))
        (snd (snd (sub__messages_queue (ex_env {1} {}) (Some ''c9'') ''x/a'' 1 0 ex_msg
           (fst (snd (sub__messages_queue (ex_env {1} {}) (Some ''c9'') ''x/a'' 1 0 ex_msg
                        ex_shared_db ex_world)))
           (snd (snd (sub__messages_queue (ex_env {1} {}) (Some ''c9'') ''x/a'' 1 0 ex_msg
                        ex_shared_db ex_world)))))))
       = [2]
   \<and> fst (sub__messages_queue (ex_env {} {1}) (Some ''c9'') ''x/a'' 1 0 ex_msg ex_shared_db ex_world)
       = 1
   \<and> fst (snd (sub__messages_queue (ex_env {} {1}) (Some ''c9'') ''x/a'' 1 0 ex_msg ex_shared_db
                  ex_world))
       = [(''x'', ex_tree [(''a'', Subhier ''a'' [] [] [(''g'', [ex_leaf 2 1, ex_leaf 1 1])])])]
   \<and> sink_targets (new_calls ex_world (snd (snd
        (sub__messages_queue (ex_env {} {1}) (Some ''c9'') ''x/a'' 1 0 ex_msg ex_shared_db ex_world))))
       = [1]
   \<and> sink_targets (new_calls
        (snd (snd (sub__messages_queue (ex_env {} {1}) (Some ''c9'') ''x/a'' 1 0 ex_msg
                     ex_shared_db ex_world)))
        (snd (snd (sub__messages_queue (ex_env {} {1}) (Some ''c9'') ''x/a'' 1 0 ex_msg
           (fst (snd (sub__messages_queue (ex_env {} {1}) (Some ''c9'') ''x/a'' 1 0 ex_msg
                        ex_shared_db ex_world)))
           (snd (snd (sub__messages_queue (ex_env {} {1}) (Some ''c9'') ''x/a'' 1 0 ex_msg
                        ex_shared_db ex_world)))))))
       = [2]"
proof -
  let ?n = "Subhier ''a'' [] [] [(''g'', [ex_leaf 1 1, ex_leaf 2 1])]"
  let ?h = "ex_tree [(''a'', ?n)]"
  let ?p1 = "\<lambda>E. sub__messages_queue E (Some ''c9'') ''x/a'' 1 0 ex_msg ex_shared_db ex_world"
  let ?p2 = "\<lambda>E. sub__messages_queue E (Some ''c9'') ''x/a'' 1 0 ex_msg (fst (snd (?p1 E)))
                    (snd (snd (?p1 E)))"
  have tok: "sub__topic_tokenise ''x/a'' = Inr (''x'' # [''a''], None)"
    by (simp add: tok_defs)
  have lit: "''+'' \<notin> set (''x'' # [''a'']) \<and> ''#'' \<notin> set (''x'' # [''a''])"
    by simp
  have root: "map_of ex_shared_db ''x'' = Some ?h"
    by (simp add: ex_shared_db_def)
  have ne: "hier_groups_nonempty ?h"
    by (simp add: ex_tree_def groups_nonempty_def)
  have run1: "?p1 E = (fst (?p1 E), fst (snd (?p1 E)), snd (snd (?p1 E)))"
   and run2: "?p2 E = (fst (?p2 E), fst (snd (?p2 E)), snd (snd (?p2 E)))" for E
    by simp_all
  have m: "matched_nodes ?h (''x'' # [''a'']) = [?n]"
    by (simp add: ex_tree_def hash_nodes_def branch_nodes_def find_child_def)
  have den: "mosquitto_acl_check (ex_env {1} {}) 1 ''x/a'' ex_msg = MOSQ_ERR_ACL_DENIED"
    by (simp add: ex_env_def)
  have db1: "fst (snd (?p1 (ex_env {1} {})))
               = [(''x'', ex_tree [(''a'', Subhier ''a'' [] [] [(''g'', [ex_leaf 2 1, ex_leaf 1 1])])])]"
    using tok by (simp add: pub_defs ex_shared_db_def)
  have db2: "fst (snd (?p1 (ex_env {} {1})))
               = [(''x'', ex_tree [(''a'', Subhier ''a'' [] [] [(''g'', [ex_leaf 2 1, ex_leaf 1 1])])])]"
   and rc2: "fst (?p1 (ex_env {} {1})) = 1"
    using tok by (simp_all add: pub_defs ex_shared_db_def)
  have two: "acl_checked (new_calls ex_world (snd (snd (?p1 E)))) = [leaf_context (ex_leaf 1 1)]
            \<and> sink_targets (new_calls ex_world (snd (snd (?p1 E))))
                = (if acl_allows E ''x/a'' ex_msg (ex_leaf 1 1) then [leaf_context (ex_leaf 1 1)] else [])
            \<and> acl_checked (new_calls (snd (snd (?p1 E))) (snd (snd (?p2 E)))) = [leaf_context (ex_leaf 2 1)]
            \<and> sink_targets (new_calls (snd (snd (?p1 E))) (snd (snd (?p2 E))))
                = (if acl_allows E ''x/a'' ex_msg (ex_leaf 2 1) then [leaf_context (ex_leaf 2 1)] else [])"
    for E
    using sub__messages_queue_shared_rotation [OF tok lit root ne run1 [of E] run2 [of E]] m
    by (elim conjE allE [where x = ?n]) auto
  have allow: "\<not> acl_allows (ex_env {1} {}) ''x/a'' ex_msg (ex_leaf 1 1)"
    "acl_allows (ex_env {1} {}) ''x/a'' ex_msg (ex_leaf 2 1)"
    "acl_allows (ex_env {} {1}) ''x/a'' ex_msg (ex_leaf 1 1)"
    "acl_allows (ex_env {} {1}) ''x/a'' ex_msg (ex_leaf 2 1)"
    by (simp_all add: acl_allows_def ex_env_def ex_leaf_def mosq_err_defs)
  have lc: "leaf_context (ex_leaf 1 1) = 1" "leaf_context (ex_leaf 2 1) = 2"
    by (simp_all add: ex_leaf_def)
  note d = two [of "ex_env {1} {}", unfolded lc]
  note f = two [of "ex_env {} {1}", unfolded lc]
  have a1: "acl_checked (new_calls ex_world (snd (snd (?p1 (ex_env {1} {}))))) = [1]"
    by (rule d [THEN conjunct1])
  have s1: "sink_targets (new_calls ex_world (snd (snd (?p1 (ex_env {1} {}))))) = []"
    using d [THEN conjunct2, THEN conjunct1] allow(1) by (simp only: if_False)
  have a2: "acl_checked (new_calls (snd (snd (?p1 (ex_env {1} {})))) (snd (snd (?p2 (ex_env {1} {}))))) = [2]"
    by (rule d [THEN conjunct2, THEN conjunct2, THEN conjunct1])
  have s2: "sink_targets (new_calls (snd (snd (?p1 (ex_env {1} {})))) (snd (snd (?p2 (ex_env {1} {}))))) = [2]"
    using d [THEN conjunct2, THEN conjunct2, THEN conjunct2] allow(2)
    by (simp only: if_True)
  have s3: "sink_targets (new_calls ex_world (snd (snd (?p1 (ex_env {} {1}))))) = [1]"
    using f [THEN conjunct2, THEN conjunct1] allow(3) by (simp only: if_True)
  have s4: "sink_targets (new_calls (snd (snd (?p1 (ex_env {} {1})))) (snd (snd (?p2 (ex_env {} {1}))))) = [2]"
    using f [THEN conjunct2, THEN conjunct2, THEN conjunct2] allow(4)
    by (simp only: if_True)
  show ?thesis
    by (intro conjI) (rule tok m den a1 s1 db1 a2 s2 rc2 db2 s3 s4)+
qed


text \<open>
  C5, as stated, fails: a leaf with the no-local option unset is not taken to the ACL
  check when the publish carries no source id, nor when the leaf's own client has no id,
  nor when a delivery attempt failed at a node matched before the leaf's node (here the
  leaf of \<^verbatim>\<open>c2\<close> at \<^verbatim>\<open>x/+\<close>, after the queue has failed for the leaf at \<^verbatim>\<open>x/a\<close>).
\<close>

theorem sub__messages_queue_no_local_counterexample:
  "MQTT_SUB_OPT_GET_NO_LOCAL (subscription_options (ex_leaf 1 0)) = 0
   \<and> acl_checked (new_calls ex_world (snd (snd (subs__process (ex_env {} {})
         (Subhier ''x'' [] [ex_leaf 1 0] []) None ''x'' 0 0 ex_msg ex_world)))) = []
   \<and> ctx_id (contexts ex_world 3) \<noteq> Some ''c1''
   \<and> acl_checked (new_calls ex_world (snd (snd (subs__process (ex_env {} {})
         (Subhier ''x'' [] [ex_leaf 3 0] []) (Some ''c1'') ''x'' 0 0 ex_msg ex_world)))) = []
   \<and> sub__topic_tokenise ''x/a'' = Inr ([''x'', ''a''], None)
   \<and> map_of ex_fail_db ''x''
       = Some (ex_tree [ex_node ''a'' [ex_leaf 1 0],
                 (''+'', Subhier ''+'' [] [ex_leaf 2 0] [(''g'', [ex_leaf 2 0, ex_leaf 1 0])])])
   \<and> matched_nodes
        (ex_tree [ex_node ''a'' [ex_leaf 1 0],
                 (''+'', Subhier ''+'' [] [ex_leaf 2 0] [(''g'', [ex_leaf 2 0, ex_leaf 1 0])])])
        [''x'', ''a'']
       = [Subhier ''a'' [] [ex_leaf 1 0] [],
          Subhier ''+'' [] [ex_leaf 2 0] [(''g'', [ex_leaf 2 0, ex_leaf 1 0])]]
   \<and> MQTT_SUB_OPT_GET_NO_LOCAL (subscription_options (ex_leaf 2 0)) = 0
   \<and> ctx_id (contexts ex_world 2) = Some ''c2''
   \<and> acl_checked (new_calls ex_world (snd (snd
        (sub__messages_queue (ex_env {} {1}) (Some ''c9'') ''x/a'' 0 0 ex_msg ex_fail_db ex_world))))
       = [1]"
proof -
  have tok: "sub__topic_tokenise ''x/a'' = Inr ([''x'', ''a''], None)"
    by (simp add: tok_defs)
  show ?thesis
    using tok by (simp add: pub_defs ex_fail_db_def)
qed

text \<open>
  C5, amended: for a publish that carries a source id and whose topic has no wildcard
  level, on a trie without an empty shared group: the publish processes the first \<open>k\<close> of
  the matched nodes, in the order of the matcher: at least one when a node is matched, and
  all of them when no delivery attempt fails. The ACL check is asked, processed node by
  processed node, about the head of every shared group and then about exactly those normal
  leaves whose client has an id and for which it is not the case that the no-local option
  is set and the client's id equals the source id. A normal leaf of a processed node whose
  client has an id is thus skipped exactly when no-local is set and the ids are equal; a
  leaf whose client has no id is always skipped.
\<close>

theorem sub__messages_queue_no_local:
  assumes tok: "sub__topic_tokenise tn = Inr (t # ts, sn)"
      and lit: "''+'' \<notin> set (t # ts) \<and> ''#'' \<notin> set (t # ts)"
      and root: "map_of db t = Some h"
      and ne: "hier_groups_nonempty h"
      and run: "sub__messages_queue E (Some sid) tn qos retain stored db w = (rc, db', w')"
  shows "\<exists>k. k \<le> length (matched_nodes h (t # ts))
           \<and> (matched_nodes h (t # ts) \<noteq> [] \<longrightarrow> 0 < k)
           \<and> (\<not> list_ex (failed_call E) (new_calls w w') \<longrightarrow> k = length (matched_nodes h (t # ts)))
           \<and> acl_checked (new_calls w w') =
               concat (map (\<lambda>n. map (\<lambda>g. leaf_context (hd (snd g))) (shared n)
                          @ map leaf_context
                              (filter (\<lambda>l. ctx_id (contexts w (leaf_context l)) \<noteq> None
                                         \<and> \<not> (MQTT_SUB_OPT_GET_NO_LOCAL (subscription_options l) \<noteq> 0
                                               \<and> ctx_id (contexts w (leaf_context l)) = Some sid))
                                 (subs n)))
                     (take k (matched_nodes h (t # ts))))"
proof -
  define ns where "ns = matched_nodes h (t # ts)"
  have ne1: "list_all (\<lambda>n. groups_nonempty (shared n)) ns"
    unfolding ns_def by (rule matched_nodes_groups_nonempty [OF ne])
  obtain k h' where
        d: "processed E tn stored (Some sid) w ns k (matched_nodes h' (t # ts)) w'"
    and pos: "ns \<noteq> [] \<longrightarrow> 0 < k"
    and all: "\<not> list_ex (failed_call E) (new_calls w w') \<longrightarrow> k = length ns"
    using sub__messages_queue_processed [OF tok conjunct1 [OF lit] conjunct2 [OF lit] root
        ne1 [unfolded ns_def] run]
    unfolding ns_def by blast
  have f: "node_checks w (Some sid) =
          (\<lambda>n. map (\<lambda>g. leaf_context (hd (snd g))) (shared n)
                          @ map leaf_context
                              (filter (\<lambda>l. ctx_id (contexts w (leaf_context l)) \<noteq> None
                                         \<and> \<not> (MQTT_SUB_OPT_GET_NO_LOCAL (subscription_options l) \<noteq> 0
                                               \<and> ctx_id (contexts w (leaf_context l)) = Some sid))
                                 (subs n)))"
    by (rule ext) (simp add: node_checks_def skipped_def)
  have le: "k \<le> length ns"
   and a: "acl_checked (new_calls w w') = concat (map (node_checks w (Some sid)) (take k ns))"
    using d by (simp_all only: processed_def)
  show ?thesis
    using le pos all a unfolding f ns_def by blast
qed

theorem sub__messages_queue_no_local_witness:
  "sub__topic_tokenise ''x/a'' = Inr ([''x'', ''a''], None)
   \<and> matched_nodes (ex_tree [ex_node ''a'' [ex_leaf 1 4, ex_leaf 2 4, ex_leaf 3 0, ex_leaf 1 0]])
        [''x'', ''a'']
       = [Subhier ''a'' [] [ex_leaf 1 4, ex_leaf 2 4, ex_leaf 3 0, ex_leaf 1 0] []]
   \<and> ctx_id (contexts ex_world 1) = Some ''c1'' \<and> ctx_id (contexts ex_world 2) = Some ''c2''
   \<and> ctx_id (contexts ex_world 3) = None
   \<and> MQTT_SUB_OPT_GET_NO_LOCAL 4 \<noteq> 0 \<and> MQTT_SUB_OPT_GET_NO_LOCAL 0 = 0
   \<and> acl_checked (new_calls ex_world (snd (snd
        (sub__messages_queue (ex_env {} {}) (Some ''c1'') ''x/a'' 0 0 ex_msg ex_local_db ex_world))))
       = [2, 1]"
proof -
  let ?E = "ex_env {} {}"
  let ?n = "Subhier ''a'' [] [ex_leaf 1 4, ex_leaf 2 4, ex_leaf 3 0, ex_leaf 1 0] []"
  let ?h = "ex_tree [ex_node ''a'' [ex_leaf 1 4, ex_leaf 2 4, ex_leaf 3 0, ex_leaf 1 0]]"
  let ?p = "sub__messages_queue ?E (Some ''c1'') ''x/a'' 0 0 ex_msg ex_local_db ex_world"
  have tok: "sub__topic_tokenise ''x/a'' = Inr (''x'' # [''a''], None)"
    by (simp add: tok_defs)
  have lit: "''+'' \<notin> set (''x'' # [''a'']) \<and> ''#'' \<notin> set (''x'' # [''a''])"
    by simp
  have root: "map_of ex_local_db ''x'' = Some ?h"
    by (simp add: ex_local_db_def)
  have ne: "hier_groups_nonempty ?h"
    by (simp add: ex_tree_def ex_node_def groups_nonempty_def)
  have run: "?p = (fst ?p, fst (snd ?p), snd (snd ?p))"
    by simp
  have m: "matched_nodes ?h (''x'' # [''a'']) = [?n]"
    by (simp add: ex_tree_def ex_node_def hash_nodes_def branch_nodes_def find_child_def)
  have ids: "ctx_id (contexts ex_world 1) = Some ''c1''" "ctx_id (contexts ex_world 2) = Some ''c2''"
    "ctx_id (contexts ex_world 3) = None"
    by (simp_all add: ex_defs)
  have nl: "MQTT_SUB_OPT_GET_NO_LOCAL 4 \<noteq> 0" "MQTT_SUB_OPT_GET_NO_LOCAL 0 = 0"
    by (simp_all add: MQTT_SUB_OPT_GET_NO_LOCAL_def)
  obtain k where k: "k \<le> length [?n]" "[?n] \<noteq> [] \<longrightarrow> 0 < k"
    and a: "acl_checked (new_calls ex_world (snd (snd ?p))) =
               concat (map (\<lambda>n. map (\<lambda>g. leaf_context (hd (snd g))) (shared n)
                          @ map leaf_context
                              (filter (\<lambda>l. ctx_id (contexts ex_world (leaf_context l)) \<noteq> None
                                         \<and> \<not> (MQTT_SUB_OPT_GET_NO_LOCAL (subscription_options l) \<noteq> 0
                                               \<and> ctx_id (contexts ex_world (leaf_context l)) = Some ''c1''))
                                 (subs n)))
                     (take k [?n]))"
    using sub__messages_queue_no_local [OF tok lit root ne run, unfolded m] by blast
  have k1: "k = 1"
    using k by simp
  have "acl_checked (new_calls ex_world (snd (snd ?p))) = [2, 1]"
    unfolding a k1 using ids nl by (simp add: ex_leaf_def)
  then show ?thesis
    using tok m ids nl by simp
qed



section \<open>Properties of subscribe and unsubscribe\<close>







lemma sub__topic_tokenise_nonempty:
  "sub__topic_tokenise s = Inr (topics, sharename) \<Longrightarrow> topics \<noteq> []"
  by (auto simp: sub__topic_tokenise_def split: if_splits list.splits)

lemma walk_leaves_Nil [simp]: "walk_leaves h [] s = target_leaves h s"
  by (simp add: walk_leaves_def)










lemma leaves_at_Nil [simp]: "leaves_at db [] s = []"
  by (simp add: leaves_at_def terminal_node_def)







lemma sub__add_leaf_scan_eq:
  "sub__add_leaf_scan w c sub ls =
     (if list_ex (owned_by w c) ls then Some (update_first w c sub ls) else None)"
  by (induction ls) (auto simp: owned_by_def)

lemma update_first_addrs [simp]: "map leaf_addr (update_first w c sub ls) = map leaf_addr ls"
  by (induction ls) auto

lemma update_first_length [simp]: "length (update_first w c sub ls) = length ls"
  by (induction ls) auto

lemma owned_by_update [simp]:
  "owned_by w c (l\<lparr>leaf_identifier := i, subscription_options := opts\<rparr>) = owned_by w c l"
  by (simp add: owned_by_def)

lemma update_first_filter:
  "filter (owned_by w c) ls = [old] \<Longrightarrow>
   filter (owned_by w c) (update_first w c sub ls)
     = [old\<lparr>leaf_identifier := sub_identifier sub, subscription_options := sub_options sub\<rparr>]"
  by (induction ls) (auto split: if_splits)

lemma sub__add_leaf_existing:
  "list_ex (owned_by w c) ls \<Longrightarrow>
   sub__add_leaf c sub ls w = (MOSQ_ERR_SUB_EXISTS, update_first w c sub ls, None, w)"
  by (simp add: sub__add_leaf_def sub__add_leaf_scan_eq)

lemma sub__add_normal_existing:
  "list_ex (owned_by w c) (subs h) \<Longrightarrow>
   sub__add_normal c sub h w =
     (sub__add_result (ctx_protocol (contexts w c)) MOSQ_ERR_SUB_EXISTS,
      set_target h None (update_first w c sub (subs h)), w)"
  by (simp add: sub__add_normal_def sub__add_leaf_existing set_target_def mosq_err_defs)

lemma sub__add_shared_existing:
  assumes "list_ex (owned_by w c) (target_leaves h (Some name))"
  shows "sub__add_shared c sub h name w =
     (sub__add_result (ctx_protocol (contexts w c)) MOSQ_ERR_SUB_EXISTS,
      set_target h (Some name) (update_first w c sub (target_leaves h (Some name))), w)"
proof (cases "map_of (shared h) name")
  case None
  then show ?thesis using assms by (simp add: target_leaves_def)
next
  case (Some ls)
  then have "list_ex (owned_by w c) ls" and tl: "target_leaves h (Some name) = ls"
    using assms by (simp_all add: target_leaves_def)
  then show ?thesis
    using Some
    by (simp add: sub__add_shared_def sub__add_leaf_existing set_target_def mosq_err_defs)
qed

lemma sub__add_context_existing:
  assumes id: "ctx_id (contexts w c) \<noteq> None"
  shows "walk h topics = Some node \<Longrightarrow> list_all (\<lambda>l. length l \<le> UINT16_MAX) topics \<Longrightarrow>
   list_ex (owned_by w c) (target_leaves node sharename) \<Longrightarrow>
   sub__add_context (Some c) sub h topics sharename w =
     (sub__add_result (ctx_protocol (contexts w c)) MOSQ_ERR_SUB_EXISTS,
      replace_at h topics
        (set_target node sharename (update_first w c sub (target_leaves node sharename))),
      w)"
proof (induction topics arbitrary: h)
  case Nil
  then have "node = h" by simp
  then show ?case
    using Nil.prems(3) id
    by (cases sharename)
       (auto simp: sub__add_normal_existing sub__add_shared_existing target_leaves_def)
next
  case (Cons level levels)
  obtain branch where b: "find_child h level = Some branch" and wb: "walk branch levels = Some node"
    using Cons.prems(1) by (cases "find_child h level") auto
  have len: "\<not> length level > UINT16_MAX" and lens: "list_all (\<lambda>l. length l \<le> UINT16_MAX) levels"
    using Cons.prems(2) by auto
  show ?case
    using Cons.IH [OF wb lens Cons.prems(3)] b len by simp
qed

lemma sub__topic_tokenise_lengths:
  assumes "sub__topic_tokenise s = Inr (topics, sharename)"
  shows "list_all (\<lambda>l. length l \<le> UINT16_MAX) topics"
proof -
  have "levels_ok topics"
    using assms by (auto simp: sub__topic_tokenise_def split: if_splits list.splits)
  then have "list_all level_ok topics"
    by (simp add: levels_ok_def)
  then show ?thesis
    by (induction topics) (auto simp: level_ok_def)
qed

lemma sub__add_existing:
  assumes tok: "sub__topic_tokenise (sub_topic_filter sub) = Inr (topics, sharename)"
      and id: "ctx_id (contexts w c) \<noteq> None"
      and tnode: "terminal_node db topics = Some node"
      and ex: "list_ex (owned_by w c) (target_leaves node sharename)"
  shows "sub__add (Some c) sub db w =
     (sub__add_result (ctx_protocol (contexts w c)) MOSQ_ERR_SUB_EXISTS,
      AList.update (hd topics)
        (replace_at (the (map_of db (hd topics))) topics
           (set_target node sharename (update_first w c sub (target_leaves node sharename))))
        db,
      w)"
proof -
  obtain level levels where topics: "topics = level # levels"
    using sub__topic_tokenise_nonempty [OF tok] by (cases topics) auto
  obtain h where h: "map_of db level = Some h" and wh: "walk h topics = Some node"
    using tnode unfolding topics terminal_node_def by (cases "map_of db level") auto
  have lens: "list_all (\<lambda>l. length l \<le> UINT16_MAX) topics"
    by (rule sub__topic_tokenise_lengths [OF tok])
  then have len: "\<not> length level > UINT16_MAX"
    unfolding topics by auto
  show ?thesis
    using tok h len sub__add_context_existing [OF id wh lens ex, of sub]
    by (simp add: sub__add_def topics)
qed

lemma walk_replace_at:
  "walk h p = Some n \<Longrightarrow> walk (replace_at h p n') p = Some n'"
proof (induction p arbitrary: h)
  case Nil
  show ?case by simp
next
  case (Cons level levels)
  obtain b where b: "find_child h level = Some b" and wb: "walk b levels = Some n"
    using Cons.prems by (cases "find_child h level") auto
  show ?case
    using Cons.IH [OF wb] b by (simp add: find_child_put_child)
qed

lemma hier_leaves_alt:
  "hier_leaves h = subs h @ concat (map snd (shared h))
     @ concat (map (\<lambda>kc. hier_leaves (snd kc)) (children h))"
  by (cases h) simp

lemma concat_update_addrs:
  assumes "map leaf_addr (f v') = map leaf_addr (f v)"
  shows "map_of al k = Some v \<Longrightarrow>
   map leaf_addr (concat (map (\<lambda>kv. f (snd kv)) (AList.update k v' al)))
     = map leaf_addr (concat (map (\<lambda>kv. f (snd kv)) al))"
proof (induction al)
  case Nil
  then show ?case by simp
next
  case (Cons p al)
  obtain k' x where p: "p = (k', x)" by (cases p)
  show ?case
  proof (cases "k' = k")
    case True
    then have "x = v" using Cons.prems p by simp
    then show ?thesis using True p assms by simp
  next
    case False
    then have "map_of al k = Some v" using Cons.prems p by simp
    then show ?thesis using Cons.IH False p by simp
  qed
qed

lemma hier_leaves_put_child:
  assumes "find_child h k = Some b" and "map leaf_addr (hier_leaves b') = map leaf_addr (hier_leaves b)"
  shows "map leaf_addr (hier_leaves (put_child h k b')) = map leaf_addr (hier_leaves h)"
proof -
  have m: "map_of (children h) k = Some b"
    using assms(1) by (simp only: find_child_def)
  show ?thesis
    using concat_update_addrs [of hier_leaves b' b, OF assms(2) m]
    by (simp add: hier_leaves_alt [of "put_child h k b'"] hier_leaves_alt [of h] put_child_def)
qed

lemma hier_leaves_replace_at:
  "walk h p = Some n \<Longrightarrow> map leaf_addr (hier_leaves n') = map leaf_addr (hier_leaves n) \<Longrightarrow>
   map leaf_addr (hier_leaves (replace_at h p n')) = map leaf_addr (hier_leaves h)"
proof (induction p arbitrary: h)
  case Nil
  then show ?case by simp
next
  case (Cons level levels)
  obtain b where b: "find_child h level = Some b" and wb: "walk b levels = Some n"
    using Cons.prems(1) by (cases "find_child h level") auto
  show ?case
    using hier_leaves_put_child [OF b Cons.IH [OF wb Cons.prems(2)]] b by simp
qed

lemma hier_leaves_set_target:
  assumes "list_ex P (target_leaves h sharename)"
      and "map leaf_addr ls' = map leaf_addr (target_leaves h sharename)"
  shows "map leaf_addr (hier_leaves (set_target h sharename ls')) = map leaf_addr (hier_leaves h)"
proof (cases sharename)
  case None
  then show ?thesis
    using assms(2)
    by (simp add: hier_leaves_alt [of "set_target h sharename ls'"] hier_leaves_alt [of h]
          set_target_def target_leaves_def)
next
  case (Some name)
  obtain ls where ls: "map_of (shared h) name = Some ls"
    using assms(1) Some by (cases "map_of (shared h) name") (auto simp: target_leaves_def)
  have eq: "map leaf_addr ((\<lambda>x. x) ls') = map leaf_addr ((\<lambda>x. x) ls)"
    using assms(2) Some ls by (simp add: target_leaves_def)
  show ?thesis
    using concat_update_addrs [of "\<lambda>x. x" ls' ls, OF eq ls] Some
    by (simp add: hier_leaves_alt [of "set_target h sharename ls'"] hier_leaves_alt [of h]
          set_target_def)
qed

lemma target_leaves_set_target:
  "list_ex P (target_leaves h sharename) \<Longrightarrow> target_leaves (set_target h sharename ls') sharename = ls'"
  by (cases sharename) (auto simp: target_leaves_def set_target_def update_conv')

text \<open>
  C6: when the terminal node of the filter holds exactly one leaf of the client (by
  client id) in the list the filter names, a second \<^verbatim>\<open>sub__add\<close> changes nothing outside
  the tree (no allocation, the client's index sequence and its count as before), creates
  and removes no leaf anywhere in the trie, keeps the length of that list, and leaves in
  it exactly one leaf of the client: the old one with the new subscription identifier and
  options.
\<close>

theorem sub__add_resubscribe:
  assumes tok: "sub__topic_tokenise (sub_topic_filter sub) = Inr (topics, sharename)"
      and id: "ctx_id (contexts w c) \<noteq> None"
      and tnode: "terminal_node db topics = Some node"
      and one: "filter (owned_by w c) (target_leaves node sharename) = [old]"
      and run: "sub__add (Some c) sub db w = (rc, db', w')"
  shows "w' = w
       \<and> map leaf_addr (db_leaves db') = map leaf_addr (db_leaves db)
       \<and> map_option (\<lambda>n. filter (owned_by w c) (target_leaves n sharename))
            (terminal_node db' topics)
           = Some [old\<lparr>leaf_identifier := sub_identifier sub,
                        subscription_options := sub_options sub\<rparr>]
       \<and> map_option (\<lambda>n. length (target_leaves n sharename)) (terminal_node db' topics)
           = Some (length (target_leaves node sharename))"
proof -
  let ?ls = "target_leaves node sharename"
  let ?node' = "set_target node sharename (update_first w c sub ?ls)"
  obtain level levels where topics: "topics = level # levels"
    using sub__topic_tokenise_nonempty [OF tok] by (cases topics) auto
  obtain h where h: "map_of db level = Some h" and wh: "walk h topics = Some node"
    using tnode unfolding topics terminal_node_def by (cases "map_of db level") auto
  have ex: "list_ex (owned_by w c) ?ls"
  proof -
    have "old \<in> set (filter (owned_by w c) ?ls)" using one by simp
    then show ?thesis by (auto simp: list_ex_iff)
  qed
  have res: "sub__add (Some c) sub db w =
     (sub__add_result (ctx_protocol (contexts w c)) MOSQ_ERR_SUB_EXISTS,
      AList.update level (replace_at h topics ?node') db, w)"
    using sub__add_existing [OF tok id tnode ex] h topics by simp
  have w': "w' = w" and db': "db' = AList.update level (replace_at h topics ?node') db"
    using run res by auto
  have tn': "terminal_node db' topics = Some ?node'"
    unfolding db' using walk_replace_at [OF wh, of ?node'] topics
    by (simp add: terminal_node_def update_conv')
  have tl': "target_leaves ?node' sharename = update_first w c sub ?ls"
    by (rule target_leaves_set_target [OF ex])
  have a1: "map leaf_addr (hier_leaves ?node') = map leaf_addr (hier_leaves node)"
    by (rule hier_leaves_set_target [OF ex]) simp
  have a2: "map leaf_addr (hier_leaves (replace_at h topics ?node')) = map leaf_addr (hier_leaves h)"
    by (rule hier_leaves_replace_at [OF wh a1])
  have a3: "map leaf_addr (db_leaves db') = map leaf_addr (db_leaves db)"
    unfolding db' db_leaves_def by (rule concat_update_addrs [OF a2 h])
  show ?thesis
    using w' a3 update_first_filter [OF one, of sub] unfolding tn' by (simp add: tl')
qed

theorem sub__add_resubscribe_witness:
  "sub__topic_tokenise (sub_topic_filter (ex_sub ''a'' 2)) = Inr ([''a''], None)
   \<and> ctx_id (contexts ex_world 1) = Some ''c1''
   \<and> terminal_node (ex_db [ex_leaf 2 0, ex_leaf 1 0]) [''a'']
        = Some (Subhier ''a'' [] [ex_leaf 2 0, ex_leaf 1 0] [])
   \<and> filter (owned_by ex_world 1) [ex_leaf 2 0, ex_leaf 1 0] = [ex_leaf 1 0]
   \<and> snd (snd (sub__add (Some 1) (ex_sub ''a'' 2) (ex_db [ex_leaf 2 0, ex_leaf 1 0]) ex_world))
        = ex_world
   \<and> map_option (\<lambda>n. filter (owned_by ex_world 1) (target_leaves n None))
        (terminal_node
           (fst (snd (sub__add (Some 1) (ex_sub ''a'' 2) (ex_db [ex_leaf 2 0, ex_leaf 1 0]) ex_world)))
           [''a''])
       = Some [(ex_leaf 1 0)\<lparr>leaf_identifier := 7, subscription_options := 2\<rparr>]"
proof -
  let ?db = "ex_db [ex_leaf 2 0, ex_leaf 1 0]"
  let ?node = "Subhier ''a'' [] [ex_leaf 2 0, ex_leaf 1 0] []"
  let ?r = "sub__add (Some 1) (ex_sub ''a'' 2) ?db ex_world"
  have tok: "sub__topic_tokenise (sub_topic_filter (ex_sub ''a'' 2)) = Inr ([''a''], None)"
    by (simp add: sub__topic_tokenise_def levels_ok_def level_ok_def UINT16_MAX_def ex_sub_def)
  have id: "ctx_id (contexts ex_world 1) \<noteq> None" and id': "ctx_id (contexts ex_world 1) = Some ''c1''"
    by (simp_all add: ex_defs)
  have tnode: "terminal_node ?db [''a''] = Some ?node"
    by (simp add: terminal_node_def ex_db_def find_child_def)
  have one: "filter (owned_by ex_world 1) (target_leaves ?node None) = [ex_leaf 1 0]"
    by (simp add: owned_by_def target_leaves_def ex_defs)
  have run: "?r = (fst ?r, fst (snd ?r), snd (snd ?r))"
    by simp
  show ?thesis
    using tok id' tnode one sub__add_resubscribe [OF tok id tnode one run]
    by (simp add: target_leaves_def ex_sub_def)
qed

text \<open>
  C7: when a leaf of the client already exists where the filter leads, \<^verbatim>\<open>sub__add\<close>
  returns \<^verbatim>\<open>MOSQ_ERR_SUB_EXISTS\<close> for a client whose protocol is MQTT 3.1 or MQTT 5 (the
  versions for which the code surfaces it) and \<^verbatim>\<open>MOSQ_ERR_SUCCESS\<close> for every other
  protocol version (MQTT 3.1.1, for which retained messages are sent again).
\<close>

theorem sub__add_existing_result:
  assumes tok: "sub__topic_tokenise (sub_topic_filter sub) = Inr (topics, sharename)"
      and id: "ctx_id (contexts w c) \<noteq> None"
      and tnode: "terminal_node db topics = Some node"
      and ex: "list_ex (owned_by w c) (target_leaves node sharename)"
      and run: "sub__add (Some c) sub db w = (rc, db', w')"
  shows "rc = (if ctx_protocol (contexts w c) = mosq_p_mqtt31
                  \<or> ctx_protocol (contexts w c) = mosq_p_mqtt5
               then MOSQ_ERR_SUB_EXISTS else MOSQ_ERR_SUCCESS)"
  using run unfolding sub__add_existing [OF tok id tnode ex]
  by (auto simp: sub__add_result_def)

theorem sub__add_existing_result_witness:
  "sub__topic_tokenise (sub_topic_filter (ex_sub ''a'' 2)) = Inr ([''a''], None)
   \<and> terminal_node (ex_db [ex_leaf 2 0, ex_leaf 1 0]) [''a'']
        = Some (Subhier ''a'' [] [ex_leaf 2 0, ex_leaf 1 0] [])
   \<and> ctx_protocol (contexts ex_world 1) = mosq_p_mqtt5
   \<and> fst (sub__add (Some 1) (ex_sub ''a'' 2) (ex_db [ex_leaf 2 0, ex_leaf 1 0]) ex_world)
        = MOSQ_ERR_SUB_EXISTS
   \<and> ctx_protocol (contexts ex_world 2) = mosq_p_mqtt311
   \<and> fst (sub__add (Some 2) (ex_sub ''a'' 2) (ex_db [ex_leaf 2 0, ex_leaf 1 0]) ex_world)
        = MOSQ_ERR_SUCCESS"
proof -
  let ?db = "ex_db [ex_leaf 2 0, ex_leaf 1 0]"
  let ?node = "Subhier ''a'' [] [ex_leaf 2 0, ex_leaf 1 0] []"
  let ?r1 = "sub__add (Some 1) (ex_sub ''a'' 2) ?db ex_world"
  let ?r2 = "sub__add (Some 2) (ex_sub ''a'' 2) ?db ex_world"
  have tok: "sub__topic_tokenise (sub_topic_filter (ex_sub ''a'' 2)) = Inr ([''a''], None)"
    by (simp add: sub__topic_tokenise_def levels_ok_def level_ok_def UINT16_MAX_def ex_sub_def)
  have id1: "ctx_id (contexts ex_world 1) \<noteq> None" and id2: "ctx_id (contexts ex_world 2) \<noteq> None"
    by (simp_all add: ex_defs)
  have tnode: "terminal_node ?db [''a''] = Some ?node"
    by (simp add: terminal_node_def ex_db_def find_child_def)
  have ex1: "list_ex (owned_by ex_world 1) (target_leaves ?node None)"
   and ex2: "list_ex (owned_by ex_world 2) (target_leaves ?node None)"
    by (simp_all add: owned_by_def target_leaves_def ex_defs)
  have r1: "?r1 = (fst ?r1, fst (snd ?r1), snd (snd ?r1))"
   and r2: "?r2 = (fst ?r2, fst (snd ?r2), snd (snd ?r2))"
    by simp_all
  have p1: "ctx_protocol (contexts ex_world 1) = mosq_p_mqtt5"
   and p2: "ctx_protocol (contexts ex_world 2) = mosq_p_mqtt311"
    by (simp_all add: ex_defs)
  show ?thesis
    using tok tnode p1 p2
      sub__add_existing_result [OF tok id1 tnode ex1 r1]
      sub__add_existing_result [OF tok id2 tnode ex2 r2]
    by simp
qed


section \<open>System topics\<close>

lemma sub__add_other_keys:
  assumes tok: "sub__topic_tokenise (sub_topic_filter sub) = Inr (f0 # fs, sharename)"
      and add: "sub__add context sub db w = (rc, db', w')"
      and k: "k \<noteq> f0"
  shows "map_of db' k = map_of db k"
proof (cases "length f0 > UINT16_MAX")
  case True
  then show ?thesis
    using tok add by (simp add: sub__add_def)
next
  case False
  show ?thesis
  proof (cases "map_of db f0")
    case (Some h)
    obtain rc1 h1 w1 where c: "sub__add_context context sub h (f0 # fs) sharename w = (rc1, h1, w1)"
      by (cases "sub__add_context context sub h (f0 # fs) sharename w")
    have "db' = AList.update f0 h1 db"
      using tok add False Some c by (auto simp: sub__add_def)
    then show ?thesis
      using k by (simp add: update_conv')
  next
    case None
    obtain e w0 where e: "sub__add_hier_entry db f0 w = (e, w0)"
      by (cases "sub__add_hier_entry db f0 w")
    show ?thesis
    proof (cases e)
      case None
      then have "db' = db"
        using tok add False \<open>map_of db f0 = None\<close> e by (auto simp: sub__add_def)
      then show ?thesis by simp
    next
      case (Some p)
      have p: "p = (db @ [(f0, Subhier f0 [] [] [])], Subhier f0 [] [] [])"
        using e Some by (auto simp: sub__add_hier_entry_def split: prod.splits bool.splits)
      obtain rc1 h1 w1 where c:
        "sub__add_context context sub (Subhier f0 [] [] []) (f0 # fs) sharename w0 = (rc1, h1, w1)"
        by (cases "sub__add_context context sub (Subhier f0 [] [] []) (f0 # fs) sharename w0")
      have "db' = AList.update f0 h1 (db @ [(f0, Subhier f0 [] [] [])])"
        using tok add False \<open>map_of db f0 = None\<close> e Some p c by (auto simp: sub__add_def)
      then show ?thesis
        using k by (auto simp: update_conv' map_add_def split: option.splits)
    qed
  qed
qed

lemma sub__messages_queue_first_level_only:
  assumes tok: "sub__topic_tokenise topic_name = Inr (t0 # ts, sharename)"
      and eq: "map_of db1 t0 = map_of db2 t0"
  shows "fst (sub__messages_queue E source_id topic_name qos retain stored db1 w)
           = fst (sub__messages_queue E source_id topic_name qos retain stored db2 w)
       \<and> snd (snd (sub__messages_queue E source_id topic_name qos retain stored db1 w))
           = snd (snd (sub__messages_queue E source_id topic_name qos retain stored db2 w))"
  using tok eq
  by (cases "map_of db2 t0")
     (auto simp: sub__messages_queue_def Let_def split: prod.splits)

lemma update_first_leaf:
  "list_ex (owned_by w c) ls \<Longrightarrow>
   \<exists>l\<in>set (update_first w c sub ls). owned_by w c l \<and> subscription_options l = sub_options sub"
  by (induction ls) auto

lemma mosquitto__alloc_contexts:
  "contexts (snd (mosquitto__alloc w)) = contexts w"
  by (simp add: mosquitto__alloc_def split: list.splits)

lemma sub__add_normal_leaf:
  assumes run: "sub__add_normal c sub n w = (rc, n', w')"
      and id: "ctx_id (contexts w c) \<noteq> None"
      and acc: "rc = MOSQ_ERR_SUCCESS \<or> rc = MOSQ_ERR_SUB_EXISTS"
  shows "\<exists>l\<in>set (subs n'). owned_by w c l \<and> subscription_options l = sub_options sub"
proof (cases "list_ex (owned_by w c) (subs n)")
  case True
  have "n' = set_target n None (update_first w c sub (subs n))"
    using run unfolding sub__add_normal_existing [OF True] by auto
  then have "subs n' = update_first w c sub (subs n)"
    by (simp add: set_target_def)
  then show ?thesis
    using update_first_leaf [OF True, of sub] by simp
next
  case False
  obtain ok w1 where al: "mosquitto__alloc w = (ok, w1)" by (cases "mosquitto__alloc w")
  let ?leaf = "\<lparr>leaf_addr = next_leaf w1, leaf_context = c,
                 leaf_identifier = sub_identifier sub,
                 subscription_options = sub_options sub,
                 topic_filter = sub_topic_filter sub\<rparr>"
  have own: "owned_by w c ?leaf"
    using id by (simp add: owned_by_def)
  have "subs n' = subs n @ [?leaf]"
    using run acc False al
    by (auto simp: sub__add_normal_def sub__add_leaf_def sub__add_leaf_scan_eq Let_def
          mosq_err_defs split: prod.splits bool.splits if_splits option.splits)
  then show ?thesis
    using own by simp
qed

lemma sub__add_context_leaf:
  "sub__add_context (Some c) sub h levels None w = (rc, h', w') \<Longrightarrow>
   ctx_id (contexts w c) \<noteq> None \<Longrightarrow>
   rc = MOSQ_ERR_SUCCESS \<or> rc = MOSQ_ERR_SUB_EXISTS \<Longrightarrow>
   \<exists>n'. walk h' levels = Some n'
       \<and> (\<exists>l\<in>set (subs n'). owned_by w c l \<and> subscription_options l = sub_options sub)"
proof (induction levels arbitrary: h w h' w')
  case Nil
  have "sub__add_normal c sub h w = (rc, h', w')"
    using Nil.prems(1,2) by simp
  then show ?case
    using sub__add_normal_leaf [OF _ Nil.prems(2,3)] by simp
next
  case (Cons level levels)
  have len: "\<not> length level > UINT16_MAX"
    using Cons.prems(1,3) by (auto simp: mosq_err_defs split: if_splits)
  show ?case
  proof (cases "find_child h level")
    case (Some b)
    obtain rc1 b' w1 where r: "sub__add_context (Some c) sub b levels None w = (rc1, b', w1)"
      by (cases "sub__add_context (Some c) sub b levels None w")
    have res: "rc1 = rc" "h' = put_child h level b'"
      using Cons.prems(1) len Some r by simp_all
    show ?thesis
      using Cons.IH [OF r [unfolded res(1)] Cons.prems(2,3)]
      unfolding res(2) by (simp add: find_child_put_child)
  next
    case None
    obtain ok w0 where al: "mosquitto__alloc w = (ok, w0)" by (cases "mosquitto__alloc w")
    have ok: "ok"
      using Cons.prems(1,3) len None al
      by (cases ok) (auto simp: sub__add_hier_entry_def mosq_err_defs)
    have cw: "contexts w0 = contexts w"
      using mosquitto__alloc_contexts [of w] al by simp
    let ?new = "Subhier level [] [] []"
    obtain rc1 b' w1 where r: "sub__add_context (Some c) sub ?new levels None w0 = (rc1, b', w1)"
      by (cases "sub__add_context (Some c) sub ?new levels None w0")
    have res: "rc1 = rc"
      "h' = put_child (Subhier (topic h) (children h @ [(level, ?new)]) (subs h) (shared h)) level b'"
      using Cons.prems(1) len None al ok r by (simp_all add: sub__add_hier_entry_def)
    have id0: "ctx_id (contexts w0 c) \<noteq> None"
      using Cons.prems(2) cw by simp
    have ow: "owned_by w0 c = owned_by w c"
      by (rule ext) (simp add: owned_by_def cw)
    show ?thesis
      using Cons.IH [OF r [unfolded res(1)] id0 Cons.prems(3)]
      unfolding res(2) ow by (simp add: find_child_put_child)
  qed
qed

lemma sub__add_leaf_at:
  assumes tok: "sub__topic_tokenise (sub_topic_filter sub) = Inr (topics, None)"
      and id: "ctx_id (contexts w c) \<noteq> None"
      and run: "sub__add (Some c) sub db w = (rc, db', w')"
      and acc: "rc = MOSQ_ERR_SUCCESS \<or> rc = MOSQ_ERR_SUB_EXISTS"
  shows "\<exists>n'. terminal_node db' topics = Some n'
       \<and> (\<exists>l\<in>set (subs n'). owned_by w c l \<and> subscription_options l = sub_options sub)"
proof -
  obtain level levels where topics: "topics = level # levels"
    using sub__topic_tokenise_nonempty [OF tok] by (cases topics) auto
  have len: "\<not> length level > UINT16_MAX"
    using sub__topic_tokenise_lengths [OF tok] unfolding topics by auto
  obtain e w1 where e: "(case map_of db level of
                          Some subhier \<Rightarrow> (Some (db, subhier), w)
                        | None \<Rightarrow> sub__add_hier_entry db level w) = (e, w1)"
    by (cases "case map_of db level of
                          Some subhier \<Rightarrow> (Some (db, subhier), w)
                        | None \<Rightarrow> sub__add_hier_entry db level w")
  have cw: "contexts w1 = contexts w"
    using e mosquitto__alloc_contexts [of w]
    by (auto simp: sub__add_hier_entry_def split: option.splits prod.splits bool.splits)
  obtain db1 h where e': "e = Some (db1, h)"
    using run acc tok topics len e
    by (cases e) (auto simp: sub__add_def mosq_err_defs)
  obtain rc1 h' w2 where r: "sub__add_context (Some c) sub h topics None w1 = (rc1, h', w2)"
    by (cases "sub__add_context (Some c) sub h topics None w1")
  have res: "rc1 = rc" "db' = AList.update level h' db1"
    using run tok topics len e e' r by (simp_all add: sub__add_def)
  have id1: "ctx_id (contexts w1 c) \<noteq> None"
    using id cw by simp
  have ow: "owned_by w1 c = owned_by w c"
    by (rule ext) (simp add: owned_by_def cw)
  have tn: "terminal_node db' topics = walk h' topics"
    unfolding res(2) topics by (simp add: terminal_node_def update_conv')
  show ?thesis
    using sub__add_context_leaf [OF r [unfolded res(1)] id1 acc]
    unfolding tn ow by simp
qed

lemma hash_nodes_matched: "set (hash_nodes b) \<subseteq> set (matched_nodes b ts)"
  by (cases ts) auto

lemma matched_below:
  "find_child h t = Some b \<Longrightarrow> set (matched_nodes b ts) \<subseteq> set (matched_nodes h (t # ts))"
  by (simp add: branch_nodes_def)

lemma node_sinks_leaf:
  assumes "l \<in> set (subs n)" and "\<not> skipped w sid l" and "acl_allows E tn stored l"
  shows "leaf_context l \<in> set (node_sinks E tn stored w (Some sid) n)"
  using assms by (auto simp: node_sinks_def)

lemma sub__messages_queue_reaches:
  assumes tokT: "sub__topic_tokenise tn = Inr (t0 # ts, snT)"
      and lit: "''+'' \<notin> set (t0 # ts)" "''#'' \<notin> set (t0 # ts)"
      and root: "map_of db t0 = Some h" and ne: "hier_groups_nonempty h"
      and tnode: "terminal_node db [t0, ''#''] = Some n" and ch: "children n = []"
      and leaf: "l \<in> set (subs n)" "\<not> skipped w sid l" "acl_allows E tn stored l"
      and run: "sub__messages_queue E (Some sid) tn qos retain stored db w = (rc, db', w')"
      and ok: "\<not> list_ex (failed_call E) (new_calls w w')"
  shows "leaf_context l \<in> set (sink_targets (new_calls w w'))"
proof -
  define ns where "ns = matched_nodes h (t0 # ts)"
  have ne1: "list_all (\<lambda>n. groups_nonempty (shared n)) (matched_nodes h (t0 # ts))"
    by (rule matched_nodes_groups_nonempty [OF ne])
  obtain h' where
    d: "delivered E tn stored (Some sid) w ns (matched_nodes h' (t0 # ts)) w'"
    using sub__messages_queue_delivered [OF tokT lit root ne1 run ok] unfolding ns_def by blast
  have st: "sink_targets (new_calls w w') = concat (map (node_sinks E tn stored w (Some sid)) ns)"
    using d by (simp only: delivered_def)
  obtain b where b: "find_child h t0 = Some b" and nb: "find_child b ''#'' = Some n"
    using tnode root by (auto simp: terminal_node_def split: option.splits)
  have "n \<in> set (hash_nodes b)"
    using nb ch by (simp add: hash_nodes_def)
  then have "n \<in> set ns"
    unfolding ns_def using hash_nodes_matched [of b ts] matched_below [OF b, of ts] by blast
  then show ?thesis
    unfolding st using node_sinks_leaf [OF leaf] by auto
qed

lemmas add_defs =
  sub__add_def sub__add_hier_entry_def mosquitto__alloc_def sub__add_normal_def sub__add_leaf_def
  context_subs_assign_def sub__add_result_def ex_sub_def find_child_def put_child_def
  ex_uptime_db_def


text \<open>
  C8, as stated, fails in its second half: a subscription to \<^verbatim>\<open>$SYS/#\<close> does not receive
  a publish to \<^verbatim>\<open>$SYS/broker/uptime\<close> that carries no source id (no normal leaf is attempted
  then), nor one during which the queue fails for the subscriber of
  \<^verbatim>\<open>$SYS/broker/uptime\<close>, whose node is matched first (the matcher returns at once).
\<close>

theorem sub__messages_queue_system_topics_counterexample:
  "sub__topic_tokenise ''$SYS/broker/uptime'' = Inr ([''$SYS'', ''broker'', ''uptime''], None)
   \<and> sub__topic_tokenise ''$SYS/#'' = Inr ([''$SYS'', ''#''], None)
   \<and> fst (sub__add (Some 1) (ex_sub ''$SYS/#'' 0) ex_uptime_db ex_world) = MOSQ_ERR_SUCCESS
   \<and> sink_targets (new_calls ex_world (snd (snd
        (sub__messages_queue (ex_env {} {}) None ''$SYS/broker/uptime'' 0 0 ex_msg
           (fst (snd (sub__add (Some 1) (ex_sub ''$SYS/#'' 0) ex_uptime_db ex_world)))
           ex_world)))) = []
   \<and> sink_targets (new_calls ex_world (snd (snd
        (sub__messages_queue (ex_env {} {2}) (Some ''c9'') ''$SYS/broker/uptime'' 0 0 ex_msg
           (fst (snd (sub__add (Some 1) (ex_sub ''$SYS/#'' 0) ex_uptime_db ex_world)))
           ex_world)))) = [2]"
proof -
  have tokT: "sub__topic_tokenise ''$SYS/broker/uptime'' = Inr ([''$SYS'', ''broker'', ''uptime''], None)"
    by (simp add: tok_defs)
  have tokS: "sub__topic_tokenise ''$SYS/#'' = Inr ([''$SYS'', ''#''], None)"
    by (simp add: tok_defs)
  have add: "fst (sub__add (Some 1) (ex_sub ''$SYS/#'' 0) ex_uptime_db ex_world) = MOSQ_ERR_SUCCESS"
    "fst (snd (sub__add (Some 1) (ex_sub ''$SYS/#'' 0) ex_uptime_db ex_world)) =
       [(''$SYS'', Subhier ''$SYS''
          [(''$SYS'', Subhier ''$SYS''
             [(''broker'', Subhier ''broker''
                [(''uptime'', Subhier ''uptime'' [] [ex_leaf 2 0] [])] [] []),
              (''#'', Subhier ''#'' []
                 [\<lparr>leaf_addr = 100, leaf_context = 1, leaf_identifier = 7,
                   subscription_options = 0, topic_filter = ''$SYS/#''\<rparr>] [])] [] [])] [] [])]"
    using tokS by (simp_all add: add_defs UINT16_MAX_def Let_def mosq_err_defs ex_defs)
  show ?thesis
    unfolding add using tokT tokS
    by (simp add: sub__messages_queue_def eval_defs)
qed

text \<open>
  C8, amended: for a publish whose first level begins with \<^verbatim>\<open>$\<close>, the root of the trie is
  searched for that first level only, never for \<^verbatim>\<open>+\<close> or \<^verbatim>\<open>#\<close>: whatever the trie, a
  subscription whose filter has a first level that does not begin with \<^verbatim>\<open>$\<close> (the filter
  \<^verbatim>\<open>#\<close>, or one that starts with \<^verbatim>\<open>+\<close>) changes neither the result of the publish nor any call
  it makes, so it receives nothing. And a subscription to the topic's first level followed
  by \<^verbatim>\<open>#\<close> (as \<^verbatim>\<open>$SYS/#\<close>), accepted by \<^verbatim>\<open>sub__add\<close> on any trie for a client with an id,
  receives the publish (a client with that id is among those the message is queued for)
  when the publish carries a source id, its topic has no wildcard level, no-local does not
  exclude the subscriber, the ACL allows the clients of that id, no delivery attempt of the
  publish fails, the clients have at the publish the ids they had at the subscribe, and the
  trie the publish runs on has no empty shared group and no child below the \<^verbatim>\<open>#\<close> node.
\<close>

theorem sub__messages_queue_system_topics:
  assumes tokT: "sub__topic_tokenise topic_name = Inr (t0 # ts, snT)"
      and dollar: "t0 \<noteq> [] \<and> hd t0 = CHR ''$''"
  shows
   "(\<forall>sub f0 fs snF ctx db w rc db' w' wq.
        sub__topic_tokenise (sub_topic_filter sub) = Inr (f0 # fs, snF)
        \<and> (f0 = [] \<or> hd f0 \<noteq> CHR ''$'')
        \<and> sub__add ctx sub db w = (rc, db', w') \<longrightarrow>
        fst (sub__messages_queue E source_id topic_name qos retain stored db' wq)
          = fst (sub__messages_queue E source_id topic_name qos retain stored db wq)
        \<and> snd (snd (sub__messages_queue E source_id topic_name qos retain stored db' wq))
          = snd (snd (sub__messages_queue E source_id topic_name qos retain stored db wq)))
    \<and> (\<forall>sub c cid db w rc db' w' h' sid wq rcq dbq wq'.
        sub__topic_tokenise (sub_topic_filter sub) = Inr ([t0, ''#''], None)
        \<and> ''+'' \<notin> set ts \<and> ''#'' \<notin> set ts
        \<and> ctx_id (contexts w c) = Some cid
        \<and> sub__add (Some c) sub db w = (rc, db', w')
        \<and> (rc = MOSQ_ERR_SUCCESS \<or> rc = MOSQ_ERR_SUB_EXISTS)
        \<and> map_of db' t0 = Some h' \<and> hier_groups_nonempty h'
        \<and> (\<forall>n. terminal_node db' [t0, ''#''] = Some n \<longrightarrow> children n = [])
        \<and> (\<forall>x. ctx_id (contexts wq x) = ctx_id (contexts w x))
        \<and> (MQTT_SUB_OPT_GET_NO_LOCAL (sub_options sub) = 0 \<or> cid \<noteq> sid)
        \<and> (\<forall>x. ctx_id (contexts w x) = Some cid \<longrightarrow>
               mosquitto_acl_check E x topic_name stored = MOSQ_ERR_SUCCESS)
        \<and> sub__messages_queue E (Some sid) topic_name qos retain stored db' wq = (rcq, dbq, wq')
        \<and> \<not> list_ex (failed_call E) (new_calls wq wq') \<longrightarrow>
        (\<exists>x \<in> set (sink_targets (new_calls wq wq')). ctx_id (contexts w x) = Some cid))"
proof -
  have t0: "t0 \<noteq> ''+''" "t0 \<noteq> ''#''"
    using dollar by auto
  have a: "fst (sub__messages_queue E source_id topic_name qos retain stored db' wq)
          = fst (sub__messages_queue E source_id topic_name qos retain stored db wq)
        \<and> snd (snd (sub__messages_queue E source_id topic_name qos retain stored db' wq))
          = snd (snd (sub__messages_queue E source_id topic_name qos retain stored db wq))"
    if "sub__topic_tokenise (sub_topic_filter sub) = Inr (f0 # fs, snF)"
       "f0 = [] \<or> hd f0 \<noteq> CHR ''$''" "sub__add ctx sub db w = (rc, db', w')"
    for sub f0 fs snF ctx db w rc db' w' wq
  proof -
    have "t0 \<noteq> f0" using dollar that(2) by auto
    then have "map_of db' t0 = map_of db t0"
      by (rule sub__add_other_keys [OF that(1) that(3)])
    then show ?thesis
      by (rule sub__messages_queue_first_level_only [OF tokT])
  qed
  have b: "\<exists>x \<in> set (sink_targets (new_calls wq wq')). ctx_id (contexts w x) = Some cid"
    if tokF: "sub__topic_tokenise (sub_topic_filter sub) = Inr ([t0, ''#''], None)"
       and ts: "''+'' \<notin> set ts" "''#'' \<notin> set ts"
       and id: "ctx_id (contexts w c) = Some cid"
       and add: "sub__add (Some c) sub db w = (rc, db', w')"
       and acc: "rc = MOSQ_ERR_SUCCESS \<or> rc = MOSQ_ERR_SUB_EXISTS"
       and root: "map_of db' t0 = Some h'" and ne: "hier_groups_nonempty h'"
       and ch: "\<And>n. terminal_node db' [t0, ''#''] = Some n \<Longrightarrow> children n = []"
       and ids: "\<And>x. ctx_id (contexts wq x) = ctx_id (contexts w x)"
       and nl: "MQTT_SUB_OPT_GET_NO_LOCAL (sub_options sub) = 0 \<or> cid \<noteq> sid"
       and acl: "\<And>x. ctx_id (contexts w x) = Some cid \<Longrightarrow>
                     mosquitto_acl_check E x topic_name stored = MOSQ_ERR_SUCCESS"
       and run: "sub__messages_queue E (Some sid) topic_name qos retain stored db' wq = (rcq, dbq, wq')"
       and ok: "\<not> list_ex (failed_call E) (new_calls wq wq')"
    for sub c cid db w rc db' w' h' sid wq rcq dbq wq'
  proof -
    have id': "ctx_id (contexts w c) \<noteq> None" using id by simp
    obtain n l where n: "terminal_node db' [t0, ''#''] = Some n"
      and l: "l \<in> set (subs n)" and own: "owned_by w c l"
      and opts: "subscription_options l = sub_options sub"
      using sub__add_leaf_at [OF tokF id' add acc] by blast
    have lid: "ctx_id (contexts w (leaf_context l)) = Some cid"
      using own id by (simp add: owned_by_def)
    have sk: "\<not> skipped wq sid l"
      using lid nl opts by (auto simp: skipped_def ids)
    have al: "acl_allows E topic_name stored l"
      using acl [OF lid] by (simp add: acl_allows_def)
    have lit: "''+'' \<notin> set (t0 # ts)" "''#'' \<notin> set (t0 # ts)"
      using t0 ts by auto
    have "leaf_context l \<in> set (sink_targets (new_calls wq wq'))"
      by (rule sub__messages_queue_reaches [OF tokT lit root ne n ch [OF n] l sk al run ok])
    then show ?thesis
      using lid by blast
  qed
  have B: "\<forall>sub c cid db w rc db' w' h' sid wq rcq dbq wq'.
        sub__topic_tokenise (sub_topic_filter sub) = Inr ([t0, ''#''], None)
        \<and> ''+'' \<notin> set ts \<and> ''#'' \<notin> set ts
        \<and> ctx_id (contexts w c) = Some cid
        \<and> sub__add (Some c) sub db w = (rc, db', w')
        \<and> (rc = MOSQ_ERR_SUCCESS \<or> rc = MOSQ_ERR_SUB_EXISTS)
        \<and> map_of db' t0 = Some h' \<and> hier_groups_nonempty h'
        \<and> (\<forall>n. terminal_node db' [t0, ''#''] = Some n \<longrightarrow> children n = [])
        \<and> (\<forall>x. ctx_id (contexts wq x) = ctx_id (contexts w x))
        \<and> (MQTT_SUB_OPT_GET_NO_LOCAL (sub_options sub) = 0 \<or> cid \<noteq> sid)
        \<and> (\<forall>x. ctx_id (contexts w x) = Some cid \<longrightarrow>
               mosquitto_acl_check E x topic_name stored = MOSQ_ERR_SUCCESS)
        \<and> sub__messages_queue E (Some sid) topic_name qos retain stored db' wq = (rcq, dbq, wq')
        \<and> \<not> list_ex (failed_call E) (new_calls wq wq') \<longrightarrow>
        (\<exists>x \<in> set (sink_targets (new_calls wq wq')). ctx_id (contexts w x) = Some cid)"
  proof (intro allI impI)
    fix sub c cid db w rc db' w' h' sid wq rcq dbq wq'
    assume h: "sub__topic_tokenise (sub_topic_filter sub) = Inr ([t0, ''#''], None)
        \<and> ''+'' \<notin> set ts \<and> ''#'' \<notin> set ts
        \<and> ctx_id (contexts w c) = Some cid
        \<and> sub__add (Some c) sub db w = (rc, db', w')
        \<and> (rc = MOSQ_ERR_SUCCESS \<or> rc = MOSQ_ERR_SUB_EXISTS)
        \<and> map_of db' t0 = Some h' \<and> hier_groups_nonempty h'
        \<and> (\<forall>n. terminal_node db' [t0, ''#''] = Some n \<longrightarrow> children n = [])
        \<and> (\<forall>x. ctx_id (contexts wq x) = ctx_id (contexts w x))
        \<and> (MQTT_SUB_OPT_GET_NO_LOCAL (sub_options sub) = 0 \<or> cid \<noteq> sid)
        \<and> (\<forall>x. ctx_id (contexts w x) = Some cid \<longrightarrow>
               mosquitto_acl_check E x topic_name stored = MOSQ_ERR_SUCCESS)
        \<and> sub__messages_queue E (Some sid) topic_name qos retain stored db' wq = (rcq, dbq, wq')
        \<and> \<not> list_ex (failed_call E) (new_calls wq wq')"
    have p9: "\<And>n. terminal_node db' [t0, ''#''] = Some n \<Longrightarrow> children n = []"
      using h by blast
    have p10: "\<And>x. ctx_id (contexts wq x) = ctx_id (contexts w x)"
      using h by blast
    have p12: "\<And>x. ctx_id (contexts w x) = Some cid \<Longrightarrow>
                     mosquitto_acl_check E x topic_name stored = MOSQ_ERR_SUCCESS"
      using h by blast
    show "\<exists>x \<in> set (sink_targets (new_calls wq wq')). ctx_id (contexts w x) = Some cid"
      by (rule b [where sub = sub and c = c and db = db and rc = rc and db' = db' and w' = w'
              and h' = h' and sid = sid and rcq = rcq and dbq = dbq, OF _ _ _ _ _ _ _ _ p9 p10 _ p12])
         (use h in simp_all)
  qed
  have A: "\<forall>sub f0 fs snF ctx db w rc db' w' wq.
        sub__topic_tokenise (sub_topic_filter sub) = Inr (f0 # fs, snF)
        \<and> (f0 = [] \<or> hd f0 \<noteq> CHR ''$'')
        \<and> sub__add ctx sub db w = (rc, db', w') \<longrightarrow>
        fst (sub__messages_queue E source_id topic_name qos retain stored db' wq)
          = fst (sub__messages_queue E source_id topic_name qos retain stored db wq)
        \<and> snd (snd (sub__messages_queue E source_id topic_name qos retain stored db' wq))
          = snd (snd (sub__messages_queue E source_id topic_name qos retain stored db wq))"
    using a by blast
  show ?thesis
    by (rule conjI [OF A B])
qed


theorem sub__messages_queue_system_topics_witness:
  "sub__topic_tokenise ''$SYS/broker/uptime'' = Inr ([''$SYS'', ''broker'', ''uptime''], None)
   \<and> sub__topic_tokenise ''#'' = Inr ([''#''], None)
   \<and> sub__topic_tokenise ''$SYS/#'' = Inr ([''$SYS'', ''#''], None)
   \<and> sink_targets (new_calls ex_world (snd (snd
         (sub__messages_queue (ex_env {} {}) (Some ''c9'') ''$SYS/broker/uptime'' 0 0 ex_msg
            (fst (snd (sub__add (Some 1) (ex_sub ''#'' 0) ex_uptime_db ex_world))) ex_world)))) = [2]
   \<and> ctx_id (contexts ex_world 1) = Some ''c1''
   \<and> sink_targets (new_calls ex_world (snd (snd
         (sub__messages_queue (ex_env {} {}) (Some ''c9'') ''$SYS/broker/uptime'' 0 0 ex_msg
            (fst (snd (sub__add (Some 1) (ex_sub ''$SYS/#'' 0) ex_uptime_db ex_world))) ex_world))))
       = [2, 1]
   \<and> (\<exists>x \<in> set (sink_targets (new_calls ex_world (snd (snd
         (sub__messages_queue (ex_env {} {}) (Some ''c9'') ''$SYS/broker/uptime'' 0 0 ex_msg
            (fst (snd (sub__add (Some 1) (ex_sub ''$SYS/#'' 0) ex_uptime_db ex_world))) ex_world))))).
         ctx_id (contexts ex_world x) = Some ''c1'')"
proof -
  let ?E = "ex_env {} {}"
  let ?a = "sub__add (Some 1) (ex_sub ''#'' 0) ex_uptime_db ex_world"
  let ?s = "sub__add (Some 1) (ex_sub ''$SYS/#'' 0) ex_uptime_db ex_world"
  let ?h' = "Subhier ''$SYS''
          [(''$SYS'', Subhier ''$SYS''
             [(''broker'', Subhier ''broker''
                [(''uptime'', Subhier ''uptime'' [] [ex_leaf 2 0] [])] [] []),
              (''#'', Subhier ''#'' []
                 [\<lparr>leaf_addr = 100, leaf_context = 1, leaf_identifier = 7,
                   subscription_options = 0, topic_filter = ''$SYS/#''\<rparr>] [])] [] [])] [] []"
  let ?p = "sub__messages_queue ?E (Some ''c9'') ''$SYS/broker/uptime'' 0 0 ex_msg
              (fst (snd ?s)) ex_world"
  have tokT: "sub__topic_tokenise ''$SYS/broker/uptime''
                = Inr (''$SYS'' # [''broker'', ''uptime''], None)"
    by (simp add: tok_defs)
  have tokH: "sub__topic_tokenise ''#'' = Inr ([''#''], None)"
    by (simp add: tok_defs)
  have tokS: "sub__topic_tokenise ''$SYS/#'' = Inr ([''$SYS'', ''#''], None)"
    by (simp add: tok_defs)
  have dollar: "''$SYS'' \<noteq> [] \<and> hd ''$SYS'' = CHR ''$''"
    by simp
  note inst = sub__messages_queue_system_topics [OF tokT dollar,
      of ?E "Some ''c9''" 0 0 ex_msg]
  have pa: "sub__topic_tokenise (sub_topic_filter (ex_sub ''#'' 0)) = Inr (''#'' # [], None)
        \<and> (''#'' = [] \<or> hd ''#'' \<noteq> CHR ''$'')
        \<and> ?a = (fst ?a, fst (snd ?a), snd (snd ?a))"
    using tokH by (simp add: ex_sub_def)
  have a: "snd (snd (sub__messages_queue ?E (Some ''c9'') ''$SYS/broker/uptime'' 0 0 ex_msg
                       (fst (snd ?a)) ex_world))
         = snd (snd (sub__messages_queue ?E (Some ''c9'') ''$SYS/broker/uptime'' 0 0 ex_msg
                       ex_uptime_db ex_world))"
    using inst [THEN conjunct1, rule_format, OF pa] by simp
  have none: "sink_targets (new_calls ex_world (snd (snd
         (sub__messages_queue ?E (Some ''c9'') ''$SYS/broker/uptime'' 0 0 ex_msg
            ex_uptime_db ex_world)))) = [2]"
    using tokT by (simp add: sub__messages_queue_def eval_defs ex_uptime_db_def)
  have add: "fst ?s = MOSQ_ERR_SUCCESS" "fst (snd ?s) = [(''$SYS'', ?h')]"
    using tokS by (simp_all add: add_defs UINT16_MAX_def Let_def mosq_err_defs ex_defs)
  have id: "ctx_id (contexts ex_world 1) = Some ''c1''"
    by (simp add: ex_defs)
  have sinks: "sink_targets (new_calls ex_world (snd (snd ?p))) = [2, 1]"
    and nf: "\<not> list_ex (failed_call ?E) (new_calls ex_world (snd (snd ?p)))"
    unfolding add using tokT by (simp_all add: sub__messages_queue_def eval_defs)
  have pb: "sub__topic_tokenise (sub_topic_filter (ex_sub ''$SYS/#'' 0)) = Inr ([''$SYS'', ''#''], None)
        \<and> ''+'' \<notin> set [''broker'', ''uptime''] \<and> ''#'' \<notin> set [''broker'', ''uptime'']
        \<and> ctx_id (contexts ex_world 1) = Some ''c1''
        \<and> ?s = (fst ?s, fst (snd ?s), snd (snd ?s))
        \<and> (fst ?s = MOSQ_ERR_SUCCESS \<or> fst ?s = MOSQ_ERR_SUB_EXISTS)
        \<and> map_of (fst (snd ?s)) ''$SYS'' = Some ?h' \<and> hier_groups_nonempty ?h'
        \<and> (\<forall>n. terminal_node (fst (snd ?s)) [''$SYS'', ''#''] = Some n \<longrightarrow> children n = [])
        \<and> (\<forall>x. ctx_id (contexts ex_world x) = ctx_id (contexts ex_world x))
        \<and> (MQTT_SUB_OPT_GET_NO_LOCAL (sub_options (ex_sub ''$SYS/#'' 0)) = 0 \<or> ''c1'' \<noteq> ''c9'')
        \<and> (\<forall>x. ctx_id (contexts ex_world x) = Some ''c1'' \<longrightarrow>
               mosquitto_acl_check ?E x ''$SYS/broker/uptime'' ex_msg = MOSQ_ERR_SUCCESS)
        \<and> ?p = (fst ?p, fst (snd ?p), snd (snd ?p))
        \<and> \<not> list_ex (failed_call ?E) (new_calls ex_world (snd (snd ?p)))"
  proof -
    have q1: "sub__topic_tokenise (sub_topic_filter (ex_sub ''$SYS/#'' 0)) = Inr ([''$SYS'', ''#''], None)"
      using tokS by (simp add: ex_sub_def)
    have q2: "''+'' \<notin> set [''broker'', ''uptime'']" "''#'' \<notin> set [''broker'', ''uptime'']"
      by simp_all
    have q3: "?s = (fst ?s, fst (snd ?s), snd (snd ?s))" "?p = (fst ?p, fst (snd ?p), snd (snd ?p))"
      by simp_all
    have q4: "fst ?s = MOSQ_ERR_SUCCESS \<or> fst ?s = MOSQ_ERR_SUB_EXISTS"
      using add(1) by simp
    have q5: "map_of (fst (snd ?s)) ''$SYS'' = Some ?h'" "hier_groups_nonempty ?h'"
      unfolding add(2) by (simp_all add: groups_nonempty_def)
    have q6: "\<forall>n. terminal_node (fst (snd ?s)) [''$SYS'', ''#''] = Some n \<longrightarrow> children n = []"
      unfolding add(2) by (auto simp: terminal_node_def find_child_def)
    have q7: "\<forall>x. ctx_id (contexts ex_world x) = ctx_id (contexts ex_world x)"
      by simp
    have q8: "MQTT_SUB_OPT_GET_NO_LOCAL (sub_options (ex_sub ''$SYS/#'' 0)) = 0 \<or> ''c1'' \<noteq> ''c9''"
      by simp
    have q9: "\<forall>x. ctx_id (contexts ex_world x) = Some ''c1'' \<longrightarrow>
               mosquitto_acl_check ?E x ''$SYS/broker/uptime'' ex_msg = MOSQ_ERR_SUCCESS"
      by (simp add: ex_env_def)
    show ?thesis
      by (intro conjI q1 q2 id q3 q4 q5 q6 q7 q8 q9 nf)
  qed
  have b: "\<exists>x \<in> set (sink_targets (new_calls ex_world (snd (snd ?p)))).
             ctx_id (contexts ex_world x) = Some ''c1''"
    by (rule inst [THEN conjunct2, rule_format, OF pb])
  show ?thesis
    using tokT tokH tokS a none id sinks b by simp
qed

end
